theory Spec2Isabelle
  imports Complex_Main "HOL-Library.Sublist"
begin

section \<open>Strings and the JavaScript built-ins the results page uses\<close>

text \<open>
  A JavaScript string is a sequence of UTF-16 code units. The model is \<^typ>\<open>string\<close>:
  each \<^typ>\<open>char\<close> stands for one code unit in the range 0x00..0xFF. The regular
  expressions of \<^verbatim>\<open>hero-section.tsx\<close> carry no \<^verbatim>\<open>u\<close> flag, so their
  \<^verbatim>\<open>i\<close> flag folds only the ASCII letters onto the ASCII letters of the patterns.
\<close>

abbreviation (input) NL :: char where "NL \<equiv> CHR 0x0A"
abbreviation (input) CR :: char where "CR \<equiv> CHR 0x0D"
abbreviation (input) TAB :: char where "TAB \<equiv> CHR 0x09"
abbreviation (input) SP :: char where "SP \<equiv> CHR 0x20"

text \<open>
  \<^verbatim>\<open>\s\<close> and \<^verbatim>\<open>String.prototype.trim\<close> use one set: WhiteSpace and LineTerminator
  of ECMAScript. Below 0x100 these are TAB, LF, VT, FF, CR, SPACE and NBSP.
\<close>

definition is_space :: "char \<Rightarrow> bool" where
  "is_space c \<longleftrightarrow> c \<in> {TAB, NL, CHR 0x0B, CHR 0x0C, CR, SP, CHR 0xA0}"

text \<open>The class \<^verbatim>\<open>[ \t]\<close>.\<close>

definition is_blank :: "char \<Rightarrow> bool" where
  "is_blank c \<longleftrightarrow> c = SP \<or> c = TAB"

text \<open>\<^verbatim>\<open>s.trim()\<close>\<close>

definition trim :: "string \<Rightarrow> string" where
  "trim s = rev (dropWhile is_space (rev (dropWhile is_space s)))"

text \<open>\<^verbatim>\<open>s.replaceAll(c, r)\<close> for a one-character search string.\<close>

definition replaceAll :: "char \<Rightarrow> string \<Rightarrow> string \<Rightarrow> string" where
  "replaceAll c r s = concat (map (\<lambda>x. if x = c then r else [x]) s)"

text \<open>\<^verbatim>\<open>parts.join(sep)\<close>\<close>

fun join :: "string \<Rightarrow> string list \<Rightarrow> string" where
  "join sep [] = []"
| "join sep [x] = x"
| "join sep (x # y # ys) = x @ sep @ join sep (y # ys)"

text \<open>\<^verbatim>\<open>s.split("\n")\<close>: never the empty array, \<^verbatim>\<open>"".split("\n")\<close> is \<^verbatim>\<open>[""]\<close>.\<close>

fun split_nl :: "string \<Rightarrow> string list" where
  "split_nl [] = [[]]"
| "split_nl (c # cs) =
     (if c = NL then [] # split_nl cs
      else (case split_nl cs of [] \<Rightarrow> [[c]] | l # ls \<Rightarrow> (c # l) # ls))"

section \<open>esc and normalize\<close>

text \<open>
  \<^verbatim>\<open>function esc(s) { return s.replaceAll("&", "&amp;").replaceAll("<", "&lt;").replaceAll(">", "&gt;") }\<close>
\<close>

definition esc :: "string \<Rightarrow> string" where
  "esc s = replaceAll (CHR ''>'') ''&gt;''
             (replaceAll (CHR ''<'') ''&lt;''
               (replaceAll (CHR ''&'') ''&amp;'' s))"

text \<open>\<^verbatim>\<open>raw.replace(/\r/g, "")\<close>\<close>

definition rm_cr :: "string \<Rightarrow> string" where
  "rm_cr s = filter (\<lambda>c. c \<noteq> CR) s"

text \<open>\<^verbatim>\<open>s.replace(/\*\*/g, "")\<close>: one pass from the left, matches do not overlap.\<close>

fun rm_bold :: "string \<Rightarrow> string" where
  "rm_bold (a # b # cs) =
     (if a = CHR ''*'' \<and> b = CHR ''*'' then rm_bold cs else a # rm_bold (b # cs))"
| "rm_bold cs = cs"

text \<open>
  \<^verbatim>\<open>s.replace(/[ \t]+\n/g, "\n")\<close>: at a blank whose run of blanks ends at a newline the
  whole run is dropped and the scan goes on at that newline; any other character is copied.
  \<open>run_to_nl cs\<close> says that \<open>cs\<close> is blanks followed by a newline.
\<close>

definition run_to_nl :: "string \<Rightarrow> bool" where
  "run_to_nl cs \<longleftrightarrow> (case dropWhile is_blank cs of [] \<Rightarrow> False | d # _ \<Rightarrow> d = NL)"

function strip_trail :: "string \<Rightarrow> string" where
  "strip_trail [] = []"
| "strip_trail (c # cs) =
     (if is_blank c \<and> run_to_nl cs
      then strip_trail (dropWhile is_blank cs)
      else c # strip_trail cs)"
  by pat_completeness auto
termination
  by (relation "measure length") (auto simp: less_Suc_eq_le length_dropWhile_le)

text \<open>
  \<^verbatim>\<open>s.replace(/\n{3,}/g, "\n\n")\<close>: a run of three or more newlines becomes two.
  \<open>two_nl cs\<close> says that \<open>cs\<close> begins with two newlines.
\<close>

definition two_nl :: "string \<Rightarrow> bool" where
  "two_nl cs \<longleftrightarrow> (case cs of d # e # _ \<Rightarrow> d = NL \<and> e = NL | _ \<Rightarrow> False)"

function squeeze_nl :: "string \<Rightarrow> string" where
  "squeeze_nl [] = []"
| "squeeze_nl (c # cs) =
     (if c = NL \<and> two_nl cs
      then NL # NL # squeeze_nl (dropWhile (\<lambda>x. x = NL) cs)
      else c # squeeze_nl cs)"
  by pat_completeness auto
termination
  by (relation "measure length") (auto simp: less_Suc_eq_le length_dropWhile_le)

text \<open>
  \<^verbatim>\<open>
  function normalize(raw: string) {
    let s = raw.replace(/\r/g, "")
    s = s.replace(/\*\*/g, "")
    s = s.replace(/[ \t]+\n/g, "\n")
    s = s.replace(/\n{3,}/g, "\n\n")
    return s.trim()
  }\<close>
\<close>

definition normalize :: "string \<Rightarrow> string" where
  "normalize raw = trim (squeeze_nl (strip_trail (rm_bold (rm_cr raw))))"

section \<open>The anchor patterns and the combined-blob splitter\<close>

text \<open>
  A pattern is modelled by the function that matches it at the start of a string and
  returns what is left of the string, or \<open>None\<close>. In the patterns of this file every
  greedy repetition is followed by a character outside its class or by optional parts
  only, so the first (greedy) attempt of the backtracking matcher decides the match.
\<close>

definition lower :: "char \<Rightarrow> char" where
  "lower c = (case map_of (zip ''ABCDEFGHIJKLMNOPQRSTUVWXYZ'' ''abcdefghijklmnopqrstuvwxyz'') c of
                Some l \<Rightarrow> l | None \<Rightarrow> c)"

text \<open>A literal under the \<^verbatim>\<open>i\<close> flag.\<close>

fun lit :: "string \<Rightarrow> string \<Rightarrow> string option" where
  "lit [] s = Some s"
| "lit (p # ps) [] = None"
| "lit (p # ps) (c # cs) = (if lower c = lower p then lit ps cs else None)"

text \<open>\<^verbatim>\<open>\s*\<close>, \<^verbatim>\<open>\s+\<close>, \<^verbatim>\<open>[-\s]*\<close>, \<^verbatim>\<open>\d*\<close>, \<^verbatim>\<open>:?\<close> and \<^verbatim>\<open>:\<close>\<close>

definition spaces :: "string \<Rightarrow> string" where
  "spaces s = dropWhile is_space s"

definition spaces1 :: "string \<Rightarrow> string option" where
  "spaces1 s = (case s of [] \<Rightarrow> None | c # cs \<Rightarrow> if is_space c then Some (spaces cs) else None)"

definition hyspaces :: "string \<Rightarrow> string" where
  "hyspaces s = dropWhile (\<lambda>c. c = CHR ''-'' \<or> is_space c) s"

definition is_digit :: "char \<Rightarrow> bool" where
  "is_digit c \<longleftrightarrow> c \<in> set ''0123456789''"

definition digits :: "string \<Rightarrow> string" where
  "digits s = dropWhile is_digit s"

definition opt_colon :: "string \<Rightarrow> string" where
  "opt_colon s = (case s of [] \<Rightarrow> [] | c # cs \<Rightarrow> if c = CHR '':'' then cs else s)"

definition colon :: "string \<Rightarrow> string option" where
  "colon s = (case s of [] \<Rightarrow> None | c # cs \<Rightarrow> if c = CHR '':'' then Some cs else None)"

text \<open>\<^verbatim>\<open>const VERBAL_ANCHOR = /verbal\s*rfd\s*:?/i\<close>\<close>

definition VERBAL_ANCHOR :: "string \<Rightarrow> string option" where
  "VERBAL_ANCHOR s =
     (case lit ''verbal'' s of None \<Rightarrow> None
      | Some r \<Rightarrow> (case lit ''rfd'' (spaces r) of None \<Rightarrow> None
      | Some r \<Rightarrow> Some (opt_colon (spaces r))))"

text \<open>
  \<^verbatim>\<open>const WRITTEN_ANCHOR =
  /(written\s*rfd(?:\s*and\s*speech[-\s]*by[-\s]*speech\s*flow\s*analysis)?\s*):?/i\<close>

  \<open>written_tail\<close> is the optional group.
\<close>

definition written_tail :: "string \<Rightarrow> string option" where
  "written_tail s =
     (case lit ''and'' (spaces s) of None \<Rightarrow> None
      | Some r \<Rightarrow> (case lit ''speech'' (spaces r) of None \<Rightarrow> None
      | Some r \<Rightarrow> (case lit ''by'' (hyspaces r) of None \<Rightarrow> None
      | Some r \<Rightarrow> (case lit ''speech'' (hyspaces r) of None \<Rightarrow> None
      | Some r \<Rightarrow> (case lit ''flow'' (spaces r) of None \<Rightarrow> None
      | Some r \<Rightarrow> lit ''analysis'' (spaces r))))))"

definition WRITTEN_ANCHOR :: "string \<Rightarrow> string option" where
  "WRITTEN_ANCHOR s =
     (case lit ''written'' s of None \<Rightarrow> None
      | Some r \<Rightarrow> (case lit ''rfd'' (spaces r) of None \<Rightarrow> None
      | Some r \<Rightarrow>
          (let r' = (case written_tail r of Some t \<Rightarrow> t | None \<Rightarrow> r)
           in Some (opt_colon (spaces r')))))"

text \<open>
  \<^verbatim>\<open>s.search(re)\<close> is the index of the first position where the pattern matches
  (\<open>None\<close> for \<^verbatim>\<open>-1\<close>), \<^verbatim>\<open>re.test(s)\<close> says whether there is one, and
  \<^verbatim>\<open>s.replace(re, rep)\<close> with a pattern without the \<^verbatim>\<open>g\<close> flag replaces the
  first match.
\<close>

fun search :: "(string \<Rightarrow> string option) \<Rightarrow> string \<Rightarrow> nat option" where
  "search m [] = (if m [] = None then None else Some 0)"
| "search m (c # cs) = (if m (c # cs) = None then map_option Suc (search m cs) else Some 0)"

definition test :: "(string \<Rightarrow> string option) \<Rightarrow> string \<Rightarrow> bool" where
  "test m s \<longleftrightarrow> search m s \<noteq> None"

fun replace_first :: "(string \<Rightarrow> string option) \<Rightarrow> string \<Rightarrow> string \<Rightarrow> string" where
  "replace_first m rep [] = (case m [] of Some r \<Rightarrow> rep @ r | None \<Rightarrow> [])"
| "replace_first m rep (c # cs) =
     (case m (c # cs) of Some r \<Rightarrow> rep @ r | None \<Rightarrow> c # replace_first m rep cs)"

record SectionPair =
  verbal :: string
  written :: string

text \<open>
  \<^verbatim>\<open>
  function splitCombinedBlob(blob: string) {
    const s = normalize(blob)
    const wMatch = s.search(WRITTEN_ANCHOR)
    const vMatch = s.search(VERBAL_ANCHOR)
    if (wMatch >= 0) {
      const before = s.slice(0, wMatch)
      const after  = s.slice(wMatch).replace(WRITTEN_ANCHOR, "").trim()
      const verbal = before.replace(VERBAL_ANCHOR, "").trim()
      const written = after
      return { verbal, written }
    }
    if (vMatch >= 0) {
      const verbal = s.replace(VERBAL_ANCHOR, "").trim()
      return { verbal, written: "" }
    }
    return { verbal: "", written: s }
  }\<close>
\<close>

definition splitCombinedBlob :: "string \<Rightarrow> SectionPair" where
  "splitCombinedBlob blob =
     (let s = normalize blob;
          wMatch = search WRITTEN_ANCHOR s;
          vMatch = search VERBAL_ANCHOR s
      in case wMatch of
           Some i \<Rightarrow>
             (let before_w = take i s;
                  after_w = trim (replace_first WRITTEN_ANCHOR [] (drop i s))
              in \<lparr>verbal = trim (replace_first VERBAL_ANCHOR [] before_w), written = after_w\<rparr>)
         | None \<Rightarrow>
             (case vMatch of
                Some _ \<Rightarrow> \<lparr>verbal = trim (replace_first VERBAL_ANCHOR [] s), written = []\<rparr>
              | None \<Rightarrow> \<lparr>verbal = [], written = s\<rparr>))"

text \<open>
  The splitter as the specification words it (sections 4.2, steps 2 to 5), to be compared
  with \<open>splitCombinedBlob\<close>. The first occurrence of a pattern is the least index at
  which it matches; "the anchor label stripped" removes the first match of the VERBAL
  anchor; "from the anchor onward, with the anchor text removed" is what the WRITTEN
  anchor leaves when matched at its first occurrence.
\<close>

definition first_occurrence :: "(string \<Rightarrow> string option) \<Rightarrow> string \<Rightarrow> nat option" where
  "first_occurrence m s = find (\<lambda>i. m (drop i s) \<noteq> None) [0 ..< Suc (length s)]"

definition strip_label :: "string \<Rightarrow> string" where
  "strip_label s =
     (case first_occurrence VERBAL_ANCHOR s of
        None \<Rightarrow> s
      | Some i \<Rightarrow> take i s @ (case VERBAL_ANCHOR (drop i s) of Some r \<Rightarrow> r | None \<Rightarrow> drop i s))"

definition splitCombinedBlob_spec :: "string \<Rightarrow> SectionPair" where
  "splitCombinedBlob_spec blob =
     (let s = normalize blob
      in case first_occurrence WRITTEN_ANCHOR s of
           Some i \<Rightarrow>
             \<lparr>verbal = strip_label (take i s),
              written = (case WRITTEN_ANCHOR (drop i s) of Some r \<Rightarrow> r | None \<Rightarrow> drop i s)\<rparr>
         | None \<Rightarrow>
             (if first_occurrence VERBAL_ANCHOR s \<noteq> None
              then \<lparr>verbal = strip_label s, written = []\<rparr>
              else \<lparr>verbal = [], written = s\<rparr>))"

section \<open>Payloads and the field extractor\<close>

text \<open>
  The payload is whatever \<^verbatim>\<open>JSON.parse\<close> returned (\<^verbatim>\<open>type AnyJson = Record<string, any>\<close>).
  \<open>JObj\<close> lists the properties of an object, each key once. Of a number \<open>pickRfds\<close> only
  asks whether it is zero. \<^verbatim>\<open>undefined\<close>, the value of a missing property, is
  \<open>None\<close> of \<^typ>\<open>'a option\<close>.
\<close>

datatype json =
    JNull
  | JBool bool
  | JNum real
  | JStr string
  | JArr "json list"
  | JObj "(string \<times> json) list"

datatype error = TypeError

text \<open>
  \<^verbatim>\<open>x.k\<close> for \<open>x\<close> other than \<^verbatim>\<open>null\<close> and \<^verbatim>\<open>undefined\<close>, and \<open>k\<close> one of the keys
  \<open>pickRfds\<close> reads: none of them is a property of a string, number, boolean or array.
\<close>

fun get_prop :: "json \<Rightarrow> string \<Rightarrow> json option" where
  "get_prop (JObj kvs) k = map_of kvs k"
| "get_prop _ k = None"

text \<open>JavaScript truthiness (\<^verbatim>\<open>NaN\<close> is no JSON value).\<close>

fun truthy :: "json \<Rightarrow> bool" where
  "truthy JNull = False"
| "truthy (JBool b) = b"
| "truthy (JNum x) = (x \<noteq> 0)"
| "truthy (JStr s) = (s \<noteq> [])"
| "truthy (JArr _) = True"
| "truthy (JObj _) = True"

text \<open>\<^verbatim>\<open>a ?? d\<close>: \<open>d\<close> when \<open>a\<close> is \<^verbatim>\<open>undefined\<close> or \<^verbatim>\<open>null\<close>.\<close>

fun nullish_or :: "json option \<Rightarrow> json \<Rightarrow> json" where
  "nullish_or None d = d"
| "nullish_or (Some v) d = (if v = JNull then d else v)"

text \<open>\<^verbatim>\<open>typeof x === "string" && x\<close>, as the string it contributes to an \<^verbatim>\<open>||\<close> chain
  of strings: \<^verbatim>\<open>false\<close> and \<^verbatim>\<open>""\<close> are both passed over.\<close>

fun string_and :: "json option \<Rightarrow> string" where
  "string_and (Some (JStr s)) = s"
| "string_and _ = []"

text \<open>\<^verbatim>\<open>a || b\<close> on strings.\<close>

definition or_else :: "string \<Rightarrow> string \<Rightarrow> string" where
  "or_else a b = (if a \<noteq> [] then a else b)"

text \<open>
  \<^verbatim>\<open>!v || !v.trim()\<close>: a falsy \<open>v\<close> answers without calling \<^verbatim>\<open>trim\<close>; a string is
  trimmed; any other truthy value has no \<^verbatim>\<open>trim\<close> method and the call raises
  \<^verbatim>\<open>TypeError\<close>.
\<close>

definition blank :: "json \<Rightarrow> error + bool" where
  "blank v =
     (if \<not> truthy v then Inr True
      else case v of JStr s \<Rightarrow> Inr (trim s = []) | _ \<Rightarrow> Inl TypeError)"

text \<open>
  \<^verbatim>\<open>String(v || "")\<close>: the empty string for a falsy \<open>v\<close>, and \<open>v\<close> itself for a string.
  Both calls of \<open>pickRfds\<close> come after \<^verbatim>\<open>v.trim()\<close> has been evaluated on every truthy
  \<open>v\<close> (lemma \<open>blank_Inr\<close>), so no other value reaches them; the last equation is
  never used by \<open>pickRfds\<close>.
\<close>

fun String_or_empty :: "json \<Rightarrow> string" where
  "String_or_empty (JStr s) = s"
| "String_or_empty _ = []"

text \<open>
  The locals of \<open>pickRfds\<close>, in the order of the source:
  \<^verbatim>\<open>
  const j  = json || {}
  const ja = j.judgeAnalysis ?? j.judge_feedback ?? j.feedback ?? {}
  let verbal  = ja.verbalRfd ?? ja.verbal_rfd ?? j.verbalRfd ?? j.verbal_rfd ?? ""
  let written = ja.writtenRfd ?? ja.written_rfd ?? j.writtenRfd ?? j.written_rfd ?? ""
  const combined =
    (typeof ja.rfd === "string" && ja.rfd) ||
    (typeof written === "string" && WRITTEN_ANCHOR.test(written) ? written : "") ||
    (typeof j.rfd === "string" && j.rfd) ||
    ""\<close>
\<close>

definition j_of :: "json \<Rightarrow> json" where
  "j_of json = (if truthy json then json else JObj [])"

definition ja_of :: "json \<Rightarrow> json" where
  "ja_of j =
     nullish_or (get_prop j ''judgeAnalysis'')
       (nullish_or (get_prop j ''judge_feedback'')
         (nullish_or (get_prop j ''feedback'') (JObj [])))"

definition verbal0 :: "json \<Rightarrow> json" where
  "verbal0 j =
     nullish_or (get_prop (ja_of j) ''verbalRfd'')
       (nullish_or (get_prop (ja_of j) ''verbal_rfd'')
         (nullish_or (get_prop j ''verbalRfd'')
           (nullish_or (get_prop j ''verbal_rfd'') (JStr []))))"

definition written0 :: "json \<Rightarrow> json" where
  "written0 j =
     nullish_or (get_prop (ja_of j) ''writtenRfd'')
       (nullish_or (get_prop (ja_of j) ''written_rfd'')
         (nullish_or (get_prop j ''writtenRfd'')
           (nullish_or (get_prop j ''written_rfd'') (JStr []))))"

definition combined_of :: "json \<Rightarrow> string" where
  "combined_of j =
     or_else (string_and (get_prop (ja_of j) ''rfd''))
       (or_else (case written0 j of
                   JStr w \<Rightarrow> if test WRITTEN_ANCHOR w then w else []
                 | _ \<Rightarrow> [])
         (or_else (string_and (get_prop j ''rfd'')) []))"

text \<open>
  \<^verbatim>\<open>
  if ((!verbal || !verbal.trim()) && combined) {
    const split = splitCombinedBlob(combined)
    if (!verbal)  verbal  = split.verbal
    if (!written) written = split.written
  }\<close>
  The result is the pair of \<^verbatim>\<open>verbal\<close> and \<^verbatim>\<open>written\<close> after this statement.
\<close>

definition fallback :: "json \<Rightarrow> error + (json \<times> json)" where
  "fallback j =
     (case blank (verbal0 j) of
        Inl e \<Rightarrow> Inl e
      | Inr b \<Rightarrow>
          if b \<and> combined_of j \<noteq> []
          then (let split = splitCombinedBlob (combined_of j)
                in Inr (if \<not> truthy (verbal0 j) then JStr (verbal split) else verbal0 j,
                        if \<not> truthy (written0 j) then JStr (written split) else written0 j))
          else Inr (verbal0 j, written0 j))"

text \<open>
  \<^verbatim>\<open>
  if ((!written || !written.trim()) && typeof j.flowNotes === "string") {
    written = j.flowNotes
  }\<close>
\<close>

definition flow_notes :: "json \<Rightarrow> json \<Rightarrow> error + json" where
  "flow_notes j w =
     (case blank w of
        Inl e \<Rightarrow> Inl e
      | Inr b \<Rightarrow>
          (case get_prop j ''flowNotes'' of
             Some (JStr f) \<Rightarrow> Inr (if b then JStr f else w)
           | _ \<Rightarrow> Inr w))"

text \<open>
  \<^verbatim>\<open>
  function pickRfds(json: AnyJson) {
    ...
    return {
      verbal: normalize(String(verbal || "")),
      written: normalize(String(written || "")),
    }
  }\<close>
\<close>

definition pickRfds :: "json \<Rightarrow> error + SectionPair" where
  "pickRfds json =
     (let j = j_of json
      in case fallback j of
           Inl e \<Rightarrow> Inl e
         | Inr (v, w) \<Rightarrow>
             (case flow_notes j w of
                Inl e \<Rightarrow> Inl e
              | Inr w' \<Rightarrow>
                  Inr \<lparr>verbal = normalize (String_or_empty v),
                       written = normalize (String_or_empty w')\<rparr>))"

section \<open>The formatters\<close>

text \<open>
  \<^verbatim>\<open>
  const HEADING = /^(?:Aff|Neg)\s+(?:Constructive|Rebuttal|Summary|Final\s*Focus)\s*:|^Crossfire\s*\d*\s*:|^Grand\s*Crossfire\s*:$/i\<close>

  Three alternatives, each anchored at the start of the line; only the third is anchored
  at its end. \<open>first_of\<close> is an alternation whose branches begin with different letters.
\<close>

fun first_of :: "(string \<Rightarrow> string option) list \<Rightarrow> string \<Rightarrow> string option" where
  "first_of [] s = None"
| "first_of (m # ms) s = (case m s of Some r \<Rightarrow> Some r | None \<Rightarrow> first_of ms s)"

definition heading_speech :: "string \<Rightarrow> string option" where
  "heading_speech s =
     (case first_of [lit ''Aff'', lit ''Neg''] s of None \<Rightarrow> None
      | Some r \<Rightarrow> (case spaces1 r of None \<Rightarrow> None
      | Some r \<Rightarrow>
          (case first_of [lit ''Constructive'', lit ''Rebuttal'', lit ''Summary'',
                          \<lambda>t. case lit ''Final'' t of None \<Rightarrow> None
                                | Some u \<Rightarrow> lit ''Focus'' (spaces u)] r of
             None \<Rightarrow> None
           | Some r \<Rightarrow> colon (spaces r))))"

definition heading_crossfire :: "string \<Rightarrow> string option" where
  "heading_crossfire s =
     (case lit ''Crossfire'' s of None \<Rightarrow> None
      | Some r \<Rightarrow> colon (spaces (digits (spaces r))))"

definition heading_grand :: "string \<Rightarrow> string option" where
  "heading_grand s =
     (case lit ''Grand'' s of None \<Rightarrow> None
      | Some r \<Rightarrow> (case lit ''Crossfire'' (spaces r) of None \<Rightarrow> None
      | Some r \<Rightarrow> colon (spaces r)))"

definition HEADING :: "string \<Rightarrow> bool" where
  "HEADING line \<longleftrightarrow>
     heading_speech line \<noteq> None \<or> heading_crossfire line \<noteq> None \<or> heading_grand line = Some []"

text \<open>\<^verbatim>\<open>/^verbal\s*rfd\s*:$/i.test(line)\<close>\<close>

definition verbal_label :: "string \<Rightarrow> bool" where
  "verbal_label line \<longleftrightarrow>
     (case lit ''verbal'' line of None \<Rightarrow> False
      | Some r \<Rightarrow> (case lit ''rfd'' (spaces r) of None \<Rightarrow> False
      | Some r \<Rightarrow> colon (spaces r) = Some []))"

text \<open>\<^verbatim>\<open>line.replace(/:$/, "")\<close>\<close>

definition strip_colon :: "string \<Rightarrow> string" where
  "strip_colon s = (if s \<noteq> [] \<and> last s = CHR '':'' then butlast s else s)"

text \<open>
  \<^verbatim>\<open>text.replace(/\s{2,}/g, " ")\<close>: a run of two or more white-space characters becomes
  one space.
\<close>

definition starts_space :: "string \<Rightarrow> bool" where
  "starts_space cs \<longleftrightarrow> (case cs of [] \<Rightarrow> False | d # _ \<Rightarrow> is_space d)"

function collapse_ws :: "string \<Rightarrow> string" where
  "collapse_ws [] = []"
| "collapse_ws (c # cs) =
     (if is_space c \<and> starts_space cs
      then SP # collapse_ws (dropWhile is_space cs)
      else c # collapse_ws cs)"
  by pat_completeness auto
termination
  by (relation "measure length") (auto simp: less_Suc_eq_le length_dropWhile_le)

text \<open>
  The state of the loop of \<open>toSectionedHTML\<close> is the pair of \<^verbatim>\<open>out\<close> and \<^verbatim>\<open>para\<close>.
  \<^verbatim>\<open>
  const flushPara = () => {
    if (!para.length) return
    const text = para.join(" ").replace(/\s{2,}/g, " ").trim()
    if (text) out.push(`<p>${text}</p>`)
    para = []
  }\<close>
\<close>

definition flushPara :: "string list \<times> string list \<Rightarrow> string list \<times> string list" where
  "flushPara st =
     (case st of (out, para) \<Rightarrow>
        if para = [] then (out, para)
        else (let text = trim (collapse_ws (join '' '' para))
              in (if text \<noteq> [] then out @ [''<p>'' @ text @ ''</p>''] else out, [])))"

text \<open>
  The body of the loop:
  \<^verbatim>\<open>
  for (let raw of lines) {
    const line = raw.trim()
    if (!line) { flushPara(); continue }
    if (HEADING.test(line)) {
      flushPara()
      out.push(`<h3 class="text-lg font-semibold mb-2">${line.replace(/:$/, "")}</h3>`)
    } else if (/^verbal\s*rfd\s*:$/i.test(line)) {
      flushPara()
    } else if (WRITTEN_ANCHOR.test(line)) {
      flushPara()
    } else {
      para.push(line)
    }
  }\<close>
\<close>

definition h3_open :: string where
  \<open>h3_open = ''<h3 class="text-lg font-semibold mb-2">''\<close>

definition step :: "string list \<times> string list \<Rightarrow> string \<Rightarrow> string list \<times> string list" where
  "step st raw =
     (let line = trim raw
      in if line = [] then flushPara st
         else if HEADING line then
           (case flushPara st of (out, para) \<Rightarrow>
              (out @ [h3_open @ strip_colon line @ ''</h3>''], para))
         else if verbal_label line then flushPara st
         else if test WRITTEN_ANCHOR line then flushPara st
         else (case st of (out, para) \<Rightarrow> (out, para @ [line])))"

text \<open>
  \<^verbatim>\<open>
  function toSectionedHTML(src: string) {
    if (!src) return "<p>Not provided.</p>"
    const lines = esc(src).split("\n")
    const out: string[] = []
    let para: string[] = []
    ...
    flushPara()
    return out.join("\n")
  }\<close>
\<close>

definition sectioned_out :: "string \<Rightarrow> string list" where
  "sectioned_out src = fst (flushPara (foldl step ([], []) (split_nl (esc src))))"

definition toSectionedHTML :: "string \<Rightarrow> string" where
  "toSectionedHTML src =
     (if src = [] then ''<p>Not provided.</p>'' else join [NL] (sectioned_out src))"

text \<open>
  \<^verbatim>\<open>s.split(/\n{2,}/)\<close>: the separators are the maximal runs of two or more newlines.
\<close>

definition starts_nl :: "string \<Rightarrow> bool" where
  "starts_nl cs \<longleftrightarrow> (case cs of [] \<Rightarrow> False | d # _ \<Rightarrow> d = NL)"

function split_par :: "string \<Rightarrow> string list" where
  "split_par [] = [[]]"
| "split_par (c # cs) =
     (if c = NL \<and> starts_nl cs
      then [] # split_par (dropWhile (\<lambda>x. x = NL) cs)
      else (case split_par cs of [] \<Rightarrow> [[c]] | l # ls \<Rightarrow> (c # l) # ls))"
  by pat_completeness auto
termination
  by (relation "measure length") (auto simp: less_Suc_eq_le length_dropWhile_le)

text \<open>
  \<^verbatim>\<open>
  function toVerbalHTML(src: string) {
    if (!src) return "<p>Not provided.</p>"
    const s = esc(src)
      .replace(/\n{3,}/g, "\n\n")
      .trim()
    const parts = s.split(/\n{2,}/).map(p => p.trim()).filter(Boolean)
    return parts.map(p => `<p>${p}</p>`).join("\n")
  }\<close>
\<close>

definition verbal_parts :: "string \<Rightarrow> string list" where
  "verbal_parts src =
     filter (\<lambda>p. p \<noteq> []) (map trim (split_par (trim (squeeze_nl (esc src)))))"

definition toVerbalHTML :: "string \<Rightarrow> string" where
  "toVerbalHTML src =
     (if src = [] then ''<p>Not provided.</p>''
      else join [NL] (map (\<lambda>p. ''<p>'' @ p @ ''</p>'') (verbal_parts src)))"

section \<open>Properties of texts\<close>

text \<open>The pairs of neighbouring characters of a string.\<close>

fun adj :: "string \<Rightarrow> (char \<times> char) set" where
  "adj (x # y # zs) = insert (x, y) (adj (y # zs))"
| "adj _ = {}"

text \<open>
  The strings \<open>normalize\<close> produces: no carriage return, no \<^verbatim>\<open>**\<close>, no space or
  tab right before a newline, no three newlines in a row, no white space at either end.
\<close>

definition normal_form :: "string \<Rightarrow> bool" where
  "normal_form s \<longleftrightarrow>
     CR \<notin> set s \<and>
     \<not> sublist ''**'' s \<and>
     \<not> sublist [SP, NL] s \<and> \<not> sublist [TAB, NL] s \<and>
     \<not> sublist [NL, NL, NL] s \<and>
     (s = [] \<or> (\<not> is_space (hd s) \<and> \<not> is_space (last s)))"

text \<open>
  Escaped text: no raw \<^verbatim>\<open><\<close> or \<^verbatim>\<open>>\<close>, and every \<^verbatim>\<open>&\<close> begins one of the three
  entities \<open>esc\<close> writes.
\<close>

definition entity :: "string \<Rightarrow> bool" where
  "entity cs \<longleftrightarrow> prefix ''amp;'' cs \<or> prefix ''lt;'' cs \<or> prefix ''gt;'' cs"

fun safe :: "string \<Rightarrow> bool" where
  "safe [] = True"
| "safe (c # cs) =
     (c \<noteq> CHR ''<'' \<and> c \<noteq> CHR ''>'' \<and> (if c = CHR ''&'' then entity cs else True) \<and> safe cs)"

text \<open>The elements the formatters write around escaped text.\<close>

datatype block = Para string | Heading string

fun render :: "block \<Rightarrow> string" where
  "render (Para t) = ''<p>'' @ t @ ''</p>''"
| "render (Heading t) = h3_open @ t @ ''</h3>''"

fun block_text :: "block \<Rightarrow> string" where
  "block_text (Para t) = t"
| "block_text (Heading t) = t"

fun is_para :: "block \<Rightarrow> bool" where
  "is_para (Para t) = True"
| "is_para (Heading t) = False"

text \<open>
  A block with text in it: a paragraph whose text is not empty and not white space only,
  a heading whose text is not empty.
\<close>

fun filled :: "block \<Rightarrow> bool" where
  "filled (Para t) = (trim t \<noteq> [])"
| "filled (Heading t) = (t \<noteq> [])"

text \<open>What \<open>esc\<close> writes for one character, and the characters that occur in no entity.\<close>

definition esc_char :: "char \<Rightarrow> string" where
  "esc_char c = (if c = CHR ''&'' then ''&amp;'' else if c = CHR ''<'' then ''&lt;''
                 else if c = CHR ''>'' then ''&gt;'' else [c])"

definition plain :: "char \<Rightarrow> bool" where
  "plain c \<longleftrightarrow> c \<notin> set ''amp;ltg''"

text \<open>
  The invariant of the loop of \<open>toSectionedHTML\<close>: \<^verbatim>\<open>out\<close> holds rendered blocks of
  escaped text whose paragraphs are filled, \<^verbatim>\<open>para\<close> holds escaped lines.
\<close>

definition good_blocks :: "string list \<Rightarrow> bool" where
  "good_blocks out \<longleftrightarrow>
     (\<exists>blocks. out = map render blocks \<and> (\<forall>b\<in>set blocks. safe (block_text b) \<and> filled b))"

definition loop_inv :: "string list \<times> string list \<Rightarrow> bool" where
  "loop_inv st \<longleftrightarrow> good_blocks (fst st) \<and> (\<forall>l\<in>set (snd st). safe l)"

text \<open>A string in which no \<^verbatim>\<open>>\<close> stands right before a \<^verbatim>\<open><\<close>.\<close>

definition tight :: "string \<Rightarrow> bool" where
  "tight s \<longleftrightarrow> (CHR ''>'', CHR ''<'') \<notin> adj s"

text \<open>
  The formatters without the escaping, to be compared with \<open>toSectionedHTML\<close> and
  \<open>toVerbalHTML\<close>: they cut the input text itself into blocks (specification, sections 4.4
  and 4.5), so every character of a block text is a character of the input or a space
  that joins two lines.
\<close>

fun map_block :: "(string \<Rightarrow> string) \<Rightarrow> block \<Rightarrow> block" where
  "map_block f (Para t) = Para (f t)"
| "map_block f (Heading t) = Heading (f t)"

definition raw_flush :: "block list \<times> string list \<Rightarrow> block list \<times> string list" where
  "raw_flush st =
     (case st of (out, para) \<Rightarrow>
        if para = [] then (out, para)
        else (let text = trim (collapse_ws (join '' '' para))
              in (if text \<noteq> [] then out @ [Para text] else out, [])))"

definition raw_step :: "block list \<times> string list \<Rightarrow> string \<Rightarrow> block list \<times> string list" where
  "raw_step st raw =
     (let line = trim raw
      in if line = [] then raw_flush st
         else if HEADING line then
           (case raw_flush st of (out, para) \<Rightarrow> (out @ [Heading (strip_colon line)], para))
         else if verbal_label line then raw_flush st
         else if test WRITTEN_ANCHOR line then raw_flush st
         else (case st of (out, para) \<Rightarrow> (out, para @ [line])))"

definition raw_sectioned :: "string \<Rightarrow> block list" where
  "raw_sectioned src = fst (raw_flush (foldl raw_step ([], []) (split_nl src)))"

definition raw_verbal :: "string \<Rightarrow> block list" where
  "raw_verbal src =
     map Para (filter (\<lambda>p. p \<noteq> []) (map trim (split_par (trim (squeeze_nl src)))))"

text \<open>A block with its text escaped and the formatter's element around it.\<close>

definition render_escaped :: "block \<Rightarrow> string" where
  "render_escaped b = render (map_block esc b)"

text \<open>A class of characters that holds none of the three characters \<open>esc\<close> replaces.\<close>

definition unescaped_class :: "(char \<Rightarrow> bool) \<Rightarrow> bool" where
  "unescaped_class P \<longleftrightarrow> \<not> P (CHR ''&'') \<and> \<not> P (CHR ''<'') \<and> \<not> P (CHR ''>'')"

text \<open>The state of the loop of \<open>raw_sectioned\<close>, escaped and rendered.\<close>

definition emb :: "block list \<times> string list \<Rightarrow> string list \<times> string list" where
  "emb st = (map render_escaped (fst st), map esc (snd st))"

text \<open>The three characters \<open>esc\<close> replaces.\<close>

definition special :: "char \<Rightarrow> bool" where
  "special c \<longleftrightarrow> c = CHR ''&'' \<or> c = CHR ''<'' \<or> c = CHR ''>''"

text \<open>
  The invariant of the loop of \<open>raw_sectioned\<close>: block texts are made of characters of
  \<open>A\<close> and joining spaces, buffered lines of characters of \<open>A\<close>.
\<close>

definition raw_inv :: "char set \<Rightarrow> block list \<times> string list \<Rightarrow> bool" where
  "raw_inv A st \<longleftrightarrow>
     (\<forall>b\<in>set (fst st). set (block_text b) \<subseteq> insert SP A) \<and> (\<forall>l\<in>set (snd st). set l \<subseteq> A)"

section \<open>Facts about normalize\<close>

lemma adj_Cons: "adj (c # t) = (case t of [] \<Rightarrow> {} | d # _ \<Rightarrow> {(c, d)}) \<union> adj t"
  by (cases t) auto

lemma sublist_pair_adj: "sublist [a, b] s \<longleftrightarrow> (a, b) \<in> adj s"
  by (induction s rule: adj.induct) (auto simp: sublist_Cons_right)

lemma adj_dropWhile: "adj (dropWhile P s) \<subseteq> adj s"
  by (induction s rule: adj.induct) auto

lemma adj_tl: "adj t \<subseteq> adj (c # t)"
  by (auto simp: adj_Cons)

lemma adj_hd: "t \<noteq> [] \<Longrightarrow> (c, hd t) \<in> adj (c # t)"
  by (cases t) auto

lemma adj_Cons_cases: "p \<in> adj (c # t) \<Longrightarrow> (t \<noteq> [] \<and> p = (c, hd t)) \<or> p \<in> adj t"
  by (cases t) auto

declare strip_trail.simps(2) [simp del] squeeze_nl.simps(2) [simp del]

lemma strip_trail_drop: "is_blank c \<Longrightarrow> run_to_nl cs \<Longrightarrow> strip_trail (c # cs) = strip_trail (dropWhile is_blank cs)"
  by (simp add: strip_trail.simps(2))

lemma strip_trail_keep: "\<not> (is_blank c \<and> run_to_nl cs) \<Longrightarrow> strip_trail (c # cs) = c # strip_trail cs"
  by (auto simp: strip_trail.simps(2))

lemma run_to_nl_E: "run_to_nl cs \<Longrightarrow> \<exists>r. dropWhile is_blank cs = NL # r"
  by (cases "dropWhile is_blank cs") (simp_all add: run_to_nl_def)

lemma NL_not_blank: "\<not> is_blank NL"
  by (simp add: is_blank_def)

lemma strip_trail_NL: "strip_trail (NL # r) = NL # strip_trail r"
  by (simp add: strip_trail_keep NL_not_blank)

lemma strip_trail_Nil: "strip_trail s = [] \<longleftrightarrow> s = []"
proof (cases s)
  case Nil then show ?thesis by simp
next
  case (Cons c cs)
  show ?thesis
  proof (cases "is_blank c \<and> run_to_nl cs")
    case True
    then obtain r where "dropWhile is_blank cs = NL # r" using run_to_nl_E by blast
    with True Cons show ?thesis by (simp add: strip_trail_drop strip_trail_NL)
  next
    case False
    with Cons show ?thesis by (simp add: strip_trail_keep)
  qed
qed

lemma strip_trail_hd: "s \<noteq> [] \<Longrightarrow> hd (strip_trail s) = hd s \<or> hd (strip_trail s) = NL"
proof (cases s)
  case Nil then show ?thesis by simp
next
  case (Cons c cs)
  show ?thesis
  proof (cases "is_blank c \<and> run_to_nl cs")
    case True
    then obtain r where "dropWhile is_blank cs = NL # r" using run_to_nl_E by blast
    with True Cons show ?thesis by (simp add: strip_trail_drop strip_trail_NL)
  next
    case False
    with Cons show ?thesis by (simp add: strip_trail_keep)
  qed
qed

lemma adj_strip_trail: "adj (strip_trail s) \<subseteq> adj s \<union> {(x, y). y = NL}"
proof (induction s rule: strip_trail.induct)
  case 1 show ?case by simp
next
  case (2 c cs)
  show ?case
  proof (cases "is_blank c \<and> run_to_nl cs")
    case True
    then have "adj (strip_trail (dropWhile is_blank cs)) \<subseteq> adj (dropWhile is_blank cs) \<union> {(x, y). y = NL}"
      using 2(1) by blast
    moreover have "adj (dropWhile is_blank cs) \<subseteq> adj (c # cs)"
      using adj_dropWhile[of is_blank cs] adj_tl[of cs c] by blast
    ultimately show ?thesis using True by (simp add: strip_trail_drop) blast
  next
    case False
    then have ih: "adj (strip_trail cs) \<subseteq> adj cs \<union> {(x, y). y = NL}" using 2(2) by blast
    show ?thesis
    proof
      fix p assume "p \<in> adj (strip_trail (c # cs))"
      then have "p \<in> adj (c # strip_trail cs)" using False by (simp add: strip_trail_keep)
      then consider "strip_trail cs \<noteq> []" "p = (c, hd (strip_trail cs))" | "p \<in> adj (strip_trail cs)"
        using adj_Cons_cases by blast
      then show "p \<in> adj (c # cs) \<union> {(x, y). y = NL}"
      proof cases
        case 1
        then have ne: "cs \<noteq> []" by (simp add: strip_trail_Nil)
        from strip_trail_hd[OF ne] show ?thesis
        proof
          assume "hd (strip_trail cs) = hd cs"
          with 1 adj_hd[OF ne, of c] show ?thesis by simp
        next
          assume "hd (strip_trail cs) = NL"
          with 1 show ?thesis by simp
        qed
      next
        case 2
        with ih adj_tl[of cs c] show ?thesis by blast
      qed
    qed
  qed
qed


lemma squeeze_nl_drop: "two_nl cs \<Longrightarrow> squeeze_nl (NL # cs) = NL # NL # squeeze_nl (dropWhile (\<lambda>x. x = NL) cs)"
  by (simp add: squeeze_nl.simps(2))

lemma squeeze_nl_keep: "\<not> (c = NL \<and> two_nl cs) \<Longrightarrow> squeeze_nl (c # cs) = c # squeeze_nl cs"
  by (auto simp: squeeze_nl.simps(2))

lemma two_nl_iff: "two_nl cs \<longleftrightarrow> (\<exists>r. cs = NL # NL # r)"
  by (cases cs; cases "tl cs") (auto simp: two_nl_def)

lemma squeeze_nl_Nil: "squeeze_nl s = [] \<longleftrightarrow> s = []"
  by (cases s) (auto simp: squeeze_nl.simps(2))

lemma squeeze_nl_hd: "hd (squeeze_nl s) = hd s"
  by (cases s) (auto simp: squeeze_nl.simps(2))

lemma adj_run_end: "dropWhile (\<lambda>x. x = a) cs = d # r \<Longrightarrow> (a, d) \<in> adj (a # cs)"
  by (induction cs) (auto split: if_splits)

lemma adj_squeeze_nl: "adj (squeeze_nl s) \<subseteq> adj s"
proof (induction s rule: squeeze_nl.induct)
  case 1 show ?case by simp
next
  case (2 c cs)
  show ?case
  proof (cases "c = NL \<and> two_nl cs")
    case True
    then obtain cs' where cs: "cs = NL # NL # cs'" and c: "c = NL"
      by (auto simp: two_nl_iff)
    let ?r = "dropWhile (\<lambda>x. x = NL) cs"
    have ih: "adj (squeeze_nl ?r) \<subseteq> adj ?r" using 2(1) True by blast
    have sub: "adj ?r \<subseteq> adj (c # cs)"
      using adj_dropWhile[of "\<lambda>x. x = NL" cs] adj_tl[of cs c] by blast
    have hdp: "?r \<noteq> [] \<Longrightarrow> (NL, hd ?r) \<in> adj (c # cs)"
      using adj_run_end[of NL cs "hd ?r" "tl ?r"] c by simp
    have nn: "(NL, NL) \<in> adj (c # cs)" using c cs by simp
    have eq: "squeeze_nl (c # cs) = NL # NL # squeeze_nl ?r" using True by (simp add: squeeze_nl_drop)
    show ?thesis
    proof
      fix p assume "p \<in> adj (squeeze_nl (c # cs))"
      then have "p = (NL, NL) \<or> p \<in> adj (NL # squeeze_nl ?r)" unfolding eq by simp
      then consider "p = (NL, NL)" | "squeeze_nl ?r \<noteq> []" "p = (NL, hd (squeeze_nl ?r))" | "p \<in> adj (squeeze_nl ?r)"
        using adj_Cons_cases by blast
      then show "p \<in> adj (c # cs)"
      proof cases
        case 1 with nn show ?thesis by simp
      next
        case 2 with hdp show ?thesis by (simp add: squeeze_nl_Nil squeeze_nl_hd)
      next
        case 3 with ih sub show ?thesis by blast
      qed
    qed
  next
    case False
    then have ih: "adj (squeeze_nl cs) \<subseteq> adj cs" using 2(2) by blast
    show ?thesis
    proof
      fix p assume "p \<in> adj (squeeze_nl (c # cs))"
      then have "p \<in> adj (c # squeeze_nl cs)" using False by (simp add: squeeze_nl_keep)
      then consider "squeeze_nl cs \<noteq> []" "p = (c, hd (squeeze_nl cs))" | "p \<in> adj (squeeze_nl cs)"
        using adj_Cons_cases by blast
      then show "p \<in> adj (c # cs)"
      proof cases
        case 1
        then have "cs \<noteq> []" by (simp add: squeeze_nl_Nil)
        with 1 adj_hd[of cs c] show ?thesis by (simp add: squeeze_nl_hd)
      next
        case 2 with ih adj_tl[of cs c] show ?thesis by blast
      qed
    qed
  qed
qed

lemma set_rm_bold: "set (rm_bold s) \<subseteq> set s"
  by (induction s rule: rm_bold.induct) auto

lemma set_strip_trail: "set (strip_trail s) \<subseteq> set s"
proof (induction s rule: strip_trail.induct)
  case 1 show ?case by simp
next
  case (2 c cs)
  show ?case
  proof (cases "is_blank c \<and> run_to_nl cs")
    case True
    with 2(1) have "set (strip_trail (dropWhile is_blank cs)) \<subseteq> set (dropWhile is_blank cs)" by blast
    with True show ?thesis using set_dropWhileD[of _ is_blank cs] by (auto simp: strip_trail_drop)
  next
    case False
    with 2(2) have "set (strip_trail cs) \<subseteq> set cs" by blast
    with False show ?thesis by (auto simp: strip_trail_keep)
  qed
qed

lemma set_squeeze_nl: "set (squeeze_nl s) \<subseteq> set s"
proof (induction s rule: squeeze_nl.induct)
  case 1 show ?case by simp
next
  case (2 c cs)
  show ?case
  proof (cases "c = NL \<and> two_nl cs")
    case True
    with 2(1) have "set (squeeze_nl (dropWhile (\<lambda>x. x = NL) cs)) \<subseteq> set (dropWhile (\<lambda>x. x = NL) cs)" by blast
    with True show ?thesis using set_dropWhileD[of _ "\<lambda>x. x = NL" cs] by (auto simp: squeeze_nl_drop)
  next
    case False
    with 2(2) have "set (squeeze_nl cs) \<subseteq> set cs" by blast
    with False show ?thesis by (auto simp: squeeze_nl_keep)
  qed
qed

lemma sublist_trim: "sublist (trim s) s"
proof -
  have "suffix (dropWhile is_space s) s" by (rule suffix_dropWhile)
  moreover have "prefix (rev (dropWhile is_space (rev t))) t" for t
    using suffix_dropWhile[of is_space "rev t"] by (simp add: suffix_to_prefix)
  ultimately show ?thesis
    unfolding trim_def by (meson prefix_imp_sublist suffix_imp_sublist sublist_order.order.trans)
qed

lemma set_trim: "set (trim s) \<subseteq> set s"
  using sublist_trim[of s] by (rule set_mono_sublist)

lemma rm_bold_no_star: "b \<noteq> CHR ''*'' \<Longrightarrow> rm_bold (b # cs) = b # rm_bold cs"
  by (cases cs) auto

lemma adj_rm_bold: "(CHR ''*'', CHR ''*'') \<notin> adj (rm_bold s)"
proof (induction s rule: rm_bold.induct)
  case (1 a b cs)
  show ?case
  proof (cases "a = CHR ''*'' \<and> b = CHR ''*''")
    case True with 1 show ?thesis by simp
  next
    case False
    with 1 show ?thesis by (cases "b = CHR ''*''") (auto simp: adj_Cons rm_bold_no_star split: list.splits)
  qed
qed simp_all


lemma adj_strip_trail_out: "is_blank b \<Longrightarrow> (b, NL) \<notin> adj (strip_trail s)"
proof (induction s rule: strip_trail.induct)
  case 1 show ?case by simp
next
  case (2 c cs)
  show ?case
  proof (cases "is_blank c \<and> run_to_nl cs")
    case True with 2 show ?thesis by (simp add: strip_trail_drop)
  next
    case False
    then have ih: "(b, NL) \<notin> adj (strip_trail cs)" using 2 by blast
    have hdnl: "run_to_nl cs" if "cs \<noteq> []" "hd (strip_trail cs) = NL"
    proof (cases cs)
      case Nil with that show ?thesis by simp
    next
      case (Cons d ds)
      show ?thesis
      proof (cases "is_blank d \<and> run_to_nl ds")
        case True
        then show ?thesis using Cons by (simp add: run_to_nl_def)
      next
        case False
        with that Cons have "d = NL" by (simp add: strip_trail_keep)
        with Cons show ?thesis by (simp add: run_to_nl_def NL_not_blank)
      qed
    qed
    show ?thesis
    proof
      assume "(b, NL) \<in> adj (strip_trail (c # cs))"
      then have "(b, NL) \<in> adj (c # strip_trail cs)" using False by (simp add: strip_trail_keep)
      then have "strip_trail cs \<noteq> [] \<and> (b, NL) = (c, hd (strip_trail cs))"
        using adj_Cons_cases ih by blast
      then have "cs \<noteq> []" "b = c" "hd (strip_trail cs) = NL" by (auto simp: strip_trail_Nil)
      with hdnl False 2(3) show False by blast
    qed
  qed
qed

lemma squeeze_nl_out: "\<not> sublist [NL, NL, NL] (squeeze_nl s)"
proof (induction s rule: squeeze_nl.induct)
  case 1 show ?case by simp
next
  case (2 c cs)
  show ?case
  proof (cases "c = NL \<and> two_nl cs")
    case True
    let ?r = "dropWhile (\<lambda>x. x = NL) cs"
    have ih: "\<not> sublist [NL, NL, NL] (squeeze_nl ?r)" using 2(1) True by blast
    have "?r \<noteq> [] \<Longrightarrow> hd ?r \<noteq> NL" using hd_dropWhile[of "\<lambda>x. x = NL" cs] by auto
    then have h: "squeeze_nl ?r \<noteq> [] \<Longrightarrow> hd (squeeze_nl ?r) \<noteq> NL"
      by (simp add: squeeze_nl_hd squeeze_nl_Nil)
    have "squeeze_nl (c # cs) = NL # NL # squeeze_nl ?r" using True by (simp add: squeeze_nl_drop)
    moreover have "\<not> sublist [NL, NL, NL] (NL # NL # squeeze_nl ?r)"
      using ih h by (cases "squeeze_nl ?r") (auto simp: sublist_Cons_right)
    ultimately show ?thesis by simp
  next
    case False
    then have ih: "\<not> sublist [NL, NL, NL] (squeeze_nl cs)" using 2(2) by blast
    have "two_nl cs" if "prefix [NL, NL] (squeeze_nl cs)"
    proof -
      from that obtain r where r: "squeeze_nl cs = NL # NL # r" by (auto simp: prefix_def)
      then obtain d ds where cs: "cs = d # ds" by (cases cs) auto
      show ?thesis
      proof (cases "d = NL \<and> two_nl ds")
        case True then show ?thesis using cs by (auto simp: two_nl_iff)
      next
        case False
        with r cs have "d = NL" "squeeze_nl ds = NL # r" by (simp_all add: squeeze_nl_keep)
        then have "d = NL" "ds \<noteq> []" "hd ds = NL" using squeeze_nl_hd[of ds] squeeze_nl_Nil[of ds] by auto
        then show ?thesis using cs by (cases ds) (auto simp: two_nl_iff)
      qed
    qed
    with False have "\<not> prefix [NL, NL, NL] (c # squeeze_nl cs)" by auto
    with ih False show ?thesis by (simp add: squeeze_nl_keep sublist_Cons_right)
  qed
qed

lemma trim_ends: "trim s = [] \<or> (\<not> is_space (hd (trim s)) \<and> \<not> is_space (last (trim s)))"
proof (cases "trim s = []")
  case False
  let ?d = "dropWhile is_space s"
  let ?e = "dropWhile is_space (rev ?d)"
  have e: "?e \<noteq> []" using False by (simp add: trim_def)
  then have l: "\<not> is_space (last (trim s))"
    using hd_dropWhile[of is_space "rev ?d"] by (simp add: trim_def last_rev)
  have dne: "?d \<noteq> []"
  proof
    assume a: "?d = []"
    have "?e = []" unfolding a by simp
    with e show False by blast
  qed
  then have hd: "\<not> is_space (hd ?d)" using hd_dropWhile[of is_space s] by simp
  have "prefix (trim s) ?d"
    using suffix_dropWhile[of is_space "rev ?d"] by (simp add: trim_def suffix_to_prefix)
  with False have "hd (trim s) = hd ?d" by (auto simp: prefix_def)
  with hd l show ?thesis by simp
qed simp

lemma trim_id: "s = [] \<or> (\<not> is_space (hd s) \<and> \<not> is_space (last s)) \<Longrightarrow> trim s = s"
proof (cases "s = []")
  case True then show ?thesis by (simp add: trim_def)
next
  case False
  assume "s = [] \<or> (\<not> is_space (hd s) \<and> \<not> is_space (last s))"
  with False have h: "\<not> is_space (hd s)" and l: "\<not> is_space (last s)" by auto
  from False h have d: "dropWhile is_space s = s" by (cases s) auto
  from False l have "dropWhile is_space (rev s) = rev s"
    by (cases "rev s") (auto simp: hd_rev[symmetric])
  with d show ?thesis by (simp add: trim_def)
qed

lemma rm_cr_id: "CR \<notin> set s \<Longrightarrow> rm_cr s = s"
  unfolding rm_cr_def by (induction s) auto

lemma rm_bold_id: "(CHR ''*'', CHR ''*'') \<notin> adj s \<Longrightarrow> rm_bold s = s"
  by (induction s rule: rm_bold.induct) auto

lemma blank_run_adj: "is_blank c \<Longrightarrow> dropWhile is_blank cs = NL # r \<Longrightarrow> \<exists>b. is_blank b \<and> (b, NL) \<in> adj (c # cs)"
  by (induction cs arbitrary: c) (auto split: if_splits)

lemma strip_trail_id: "\<forall>b. is_blank b \<longrightarrow> (b, NL) \<notin> adj s \<Longrightarrow> strip_trail s = s"
proof (induction s rule: strip_trail.induct)
  case 1 show ?case by simp
next
  case (2 c cs)
  have no: "\<not> (is_blank c \<and> run_to_nl cs)"
    using blank_run_adj[of c cs] run_to_nl_E[of cs] 2(3) by blast
  moreover have "\<forall>b. is_blank b \<longrightarrow> (b, NL) \<notin> adj cs" using 2(3) adj_tl[of cs c] by blast
  ultimately show ?case using 2(2) by (simp add: strip_trail_keep)
qed

lemma squeeze_nl_id: "\<not> sublist [NL, NL, NL] s \<Longrightarrow> squeeze_nl s = s"
proof (induction s rule: squeeze_nl.induct)
  case 1 show ?case by simp
next
  case (2 c cs)
  have no: "\<not> (c = NL \<and> two_nl cs)" using 2(3) by (auto simp: two_nl_iff sublist_Cons_right)
  moreover have "\<not> sublist [NL, NL, NL] cs" using 2(3) by (simp add: sublist_Cons_right)
  ultimately show ?case using 2(2) by (simp add: squeeze_nl_keep)
qed


lemma normal_form_normalize: "normal_form (normalize x)"
proof -
  let ?a = "rm_cr x" let ?b = "rm_bold ?a" let ?c = "strip_trail ?b" let ?d = "squeeze_nl ?c"
  have n: "normalize x = trim ?d" by (simp add: normalize_def)
  have "CR \<notin> set ?a" by (simp add: rm_cr_def)
  then have "CR \<notin> set ?d"
    using set_rm_bold[of ?a] set_strip_trail[of ?b] set_squeeze_nl[of ?c] by blast
  then have 1: "CR \<notin> set (trim ?d)" using set_trim[of ?d] by blast
  have "(CHR ''*'', CHR ''*'') \<notin> adj ?b" by (rule adj_rm_bold)
  then have "(CHR ''*'', CHR ''*'') \<notin> adj ?c" using adj_strip_trail[of ?b] by auto
  then have "(CHR ''*'', CHR ''*'') \<notin> adj ?d" using adj_squeeze_nl[of ?c] by blast
  then have "\<not> sublist ''**'' ?d" by (simp add: sublist_pair_adj)
  then have 2: "\<not> sublist ''**'' (trim ?d)"
    using sublist_trim[of ?d] sublist_order.order.trans by blast
  have bl: "\<not> sublist [b, NL] (trim ?d)" if "is_blank b" for b
  proof -
    have "(b, NL) \<notin> adj ?c" using that by (rule adj_strip_trail_out)
    then have "(b, NL) \<notin> adj ?d" using adj_squeeze_nl[of ?c] by blast
    then have "\<not> sublist [b, NL] ?d" by (simp add: sublist_pair_adj)
    then show ?thesis using sublist_trim[of ?d] sublist_order.order.trans by blast
  qed
  have 3: "\<not> sublist [SP, NL] (trim ?d)" "\<not> sublist [TAB, NL] (trim ?d)"
    by (rule bl, simp add: is_blank_def)+
  have "\<not> sublist [NL, NL, NL] ?d" by (rule squeeze_nl_out)
  then have 4: "\<not> sublist [NL, NL, NL] (trim ?d)"
    using sublist_trim[of ?d] sublist_order.order.trans by blast
  from 1 2 3 4 trim_ends[of ?d] show ?thesis
    unfolding normal_form_def n by blast
qed

lemma normalize_fixed: "normal_form s \<Longrightarrow> normalize s = s"
proof -
  assume nf: "normal_form s"
  then have a: "rm_cr s = s" by (simp add: normal_form_def rm_cr_id)
  from nf have b: "rm_bold s = s" by (simp add: normal_form_def rm_bold_id sublist_pair_adj)
  from nf have "\<forall>b. is_blank b \<longrightarrow> (b, NL) \<notin> adj s"
    by (auto simp: normal_form_def is_blank_def sublist_pair_adj)
  then have c: "strip_trail s = s" by (rule strip_trail_id)
  from nf have d: "squeeze_nl s = s" by (simp add: normal_form_def squeeze_nl_id)
  from nf have e: "trim s = s" by (simp add: normal_form_def trim_id)
  show ?thesis by (simp add: normalize_def a b c d e)
qed

section \<open>Facts about searching and replacing\<close>

lemma find_map_Suc: "find P (map Suc xs) = map_option Suc (find (\<lambda>i. P (Suc i)) xs)"
  by (induction xs) auto

lemma upt_Suc_shift: "[0 ..< Suc (Suc n)] = 0 # map Suc [0 ..< Suc n]"
  by (metis map_Suc_upt upt_conv_Cons zero_less_Suc)

lemma search_first_occurrence: "search m s = first_occurrence m s"
proof (induction s)
  case Nil
  show ?case by (simp add: first_occurrence_def)
next
  case (Cons c cs)
  have "first_occurrence m (c # cs) =
        (if m (c # cs) \<noteq> None then Some 0 else map_option Suc (first_occurrence m cs))"
    unfolding first_occurrence_def length_Cons upt_Suc_shift
    by (simp add: find_map_Suc del: upt_Suc)
  with Cons show ?case by simp
qed

lemma replace_first_match: "m s = Some r \<Longrightarrow> replace_first m rep s = rep @ r"
  by (cases s) simp_all

lemma replace_first_search:
  "replace_first m [] s =
     (case search m s of
        None \<Rightarrow> s
      | Some i \<Rightarrow> take i s @ (case m (drop i s) of Some r \<Rightarrow> r | None \<Rightarrow> drop i s))"
  by (induction s) (auto split: option.splits)

lemma search_Some_match: "search m s = Some i \<Longrightarrow> m (drop i s) \<noteq> None"
  by (induction s arbitrary: i) (auto split: if_splits)

lemma trim_Nil: "trim [] = []"
  by (simp add: trim_def)

lemma trim_normalize: "trim (normalize b) = normalize b"
  using normal_form_normalize[of b] by (simp add: normal_form_def trim_id)

section \<open>Facts about the guards of pickRfds\<close>

lemma blank_Inr: "blank v = Inr b \<Longrightarrow> \<not> truthy v \<or> (\<exists>s. v = JStr s)"
  by (cases v) (auto simp: blank_def split: if_splits)

lemma blank_falsy: "\<not> truthy v \<Longrightarrow> blank v = Inr True"
  by (simp add: blank_def)

lemma blank_JStr: "blank (JStr s) = Inr (trim s = [])"
  by (auto simp: blank_def trim_def)

lemma falsy_String: "\<not> truthy v \<Longrightarrow> String_or_empty v = []"
  by (cases v) auto

section \<open>Facts about escaped text and the formatters\<close>

declare collapse_ws.simps(2) [simp del] split_par.simps(2) [simp del]

lemma replaceAll_Cons: "replaceAll c r (x # xs) = (if x = c then r else [x]) @ replaceAll c r xs"
  by (simp add: replaceAll_def)

lemma replaceAll_Nil: "replaceAll c r [] = []"
  by (simp add: replaceAll_def)

lemma replaceAll_append: "replaceAll c r (a @ b) = replaceAll c r a @ replaceAll c r b"
  by (simp add: replaceAll_def)

lemma esc_Nil: "esc [] = []"
  by (simp add: esc_def replaceAll_Nil)

lemma esc_Cons: "esc (c # cs) = esc_char c @ esc cs"
  by (simp add: esc_def esc_char_def replaceAll_Cons replaceAll_append replaceAll_Nil)

lemma safe_append: "safe a \<Longrightarrow> safe b \<Longrightarrow> safe (a @ b)"
  by (induction a) (auto simp: entity_def split: if_splits)

lemma safe_suffix: "safe (a @ b) \<Longrightarrow> safe b"
  by (induction a) auto

lemma safe_esc_char: "safe (esc_char c)"
  by (simp add: esc_char_def entity_def)

lemma safe_esc: "safe (esc s)"
  by (induction s) (simp_all add: esc_Nil esc_Cons safe_append safe_esc_char)

lemma prefix_cut: "prefix p (a @ c # b) \<Longrightarrow> c \<notin> set p \<Longrightarrow> prefix p a"
proof (induction p arbitrary: a)
  case Nil then show ?case by simp
next
  case (Cons x p)
  show ?case
  proof (cases a)
    case Nil
    with Cons.prems show ?thesis by simp
  next
    case (Cons y a')
    with Cons.prems have "x = y" "prefix p (a' @ c # b)" "c \<notin> set p" by simp_all
    with Cons.IH[of a'] Cons show ?thesis by simp
  qed
qed

lemma entity_cut: "entity (a @ c # b) \<Longrightarrow> plain c \<Longrightarrow> entity a"
proof -
  assume e: "entity (a @ c # b)" and p: "plain c"
  from p have "c \<notin> set ''amp;''" "c \<notin> set ''lt;''" "c \<notin> set ''gt;''"
    by (simp_all add: plain_def)
  with e prefix_cut[of "''amp;''" a c b] prefix_cut[of "''lt;''" a c b] prefix_cut[of "''gt;''" a c b]
  show ?thesis unfolding entity_def by blast
qed

lemma safe_cut: "safe (a @ c # b) \<Longrightarrow> plain c \<Longrightarrow> safe a"
proof (induction a)
  case Nil show ?case by simp
next
  case (Cons x a)
  then show ?case using entity_cut[of a c b] by (auto split: if_splits)
qed

lemma space_plain: "is_space c \<Longrightarrow> plain c"
  by (auto simp: is_space_def plain_def)

lemma safe_dropWhile: "safe s \<Longrightarrow> safe (dropWhile P s)"
  using safe_suffix[of "takeWhile P s" "dropWhile P s"] by simp

lemma safe_drop_end: "safe s \<Longrightarrow> safe (rev (dropWhile is_space (rev s)))"
proof (induction s rule: rev_induct)
  case Nil show ?case by simp
next
  case (snoc c s)
  show ?case
  proof (cases "is_space c")
    case True
    with snoc.prems have "safe s" using safe_cut[of s c "[]"] by (simp add: space_plain)
    with snoc.IH True show ?thesis by simp
  next
    case False
    with snoc.prems show ?thesis by simp
  qed
qed

lemma safe_trim: "safe s \<Longrightarrow> safe (trim s)"
  unfolding trim_def by (intro safe_drop_end safe_dropWhile)

lemma collapse_ws_drop: "is_space c \<Longrightarrow> starts_space cs \<Longrightarrow> collapse_ws (c # cs) = SP # collapse_ws (dropWhile is_space cs)"
  by (simp add: collapse_ws.simps(2))

lemma collapse_ws_keep: "\<not> (is_space c \<and> starts_space cs) \<Longrightarrow> collapse_ws (c # cs) = c # collapse_ws cs"
  by (auto simp: collapse_ws.simps(2))

lemma split_par_drop: "starts_nl cs \<Longrightarrow> split_par (NL # cs) = [] # split_par (dropWhile (\<lambda>x. x = NL) cs)"
  by (simp add: split_par.simps(2))

lemma split_par_keep: "\<not> (c = NL \<and> starts_nl cs) \<Longrightarrow>
  split_par (c # cs) = (case split_par cs of [] \<Rightarrow> [[c]] | l # ls \<Rightarrow> (c # l) # ls)"
  by (auto simp: split_par.simps(2))

lemma split_nl_ne: "split_nl s \<noteq> []"
  by (induction s) (auto split: list.splits)

lemma split_par_ne: "split_par s \<noteq> []"
proof (induction s rule: split_par.induct)
  case 1 show ?case by simp
next
  case (2 c cs)
  show ?case
  proof (cases "c = NL \<and> starts_nl cs")
    case True then show ?thesis by (simp add: split_par_drop)
  next
    case False then show ?thesis by (simp add: split_par_keep split: list.splits)
  qed
qed

lemma prefix_collapse_ws: "prefix p cs \<Longrightarrow> \<forall>x\<in>set p. \<not> is_space x \<Longrightarrow> prefix p (collapse_ws cs)"
proof (induction p arbitrary: cs)
  case Nil show ?case by simp
next
  case (Cons x p)
  then obtain cs' where cs: "cs = x # cs'" and p: "prefix p cs'" by (cases cs) auto
  from Cons.prems have "\<not> is_space x" by simp
  then have "collapse_ws cs = x # collapse_ws cs'" using cs by (simp add: collapse_ws_keep)
  moreover have "prefix p (collapse_ws cs')" using Cons.IH[OF p] Cons.prems by simp
  ultimately show ?case by simp
qed

lemma prefix_squeeze_nl: "prefix p cs \<Longrightarrow> NL \<notin> set p \<Longrightarrow> prefix p (squeeze_nl cs)"
proof (induction p arbitrary: cs)
  case Nil show ?case by simp
next
  case (Cons x p)
  then obtain cs' where cs: "cs = x # cs'" and p: "prefix p cs'" by (cases cs) auto
  from Cons.prems have "x \<noteq> NL" by auto
  then have "squeeze_nl cs = x # squeeze_nl cs'" using cs by (simp add: squeeze_nl_keep)
  moreover have "prefix p (squeeze_nl cs')" using Cons.IH[OF p] Cons.prems by simp
  ultimately show ?case by simp
qed

lemma prefix_split_nl: "prefix p cs \<Longrightarrow> NL \<notin> set p \<Longrightarrow> prefix p (hd (split_nl cs))"
proof (induction p arbitrary: cs)
  case Nil show ?case by simp
next
  case (Cons x p)
  then obtain cs' where cs: "cs = x # cs'" and p: "prefix p cs'" by (cases cs) auto
  from Cons.prems have "x \<noteq> NL" by auto
  then have "hd (split_nl cs) = x # hd (split_nl cs')"
    using cs split_nl_ne[of cs'] by (cases "split_nl cs'") auto
  moreover have "prefix p (hd (split_nl cs'))" using Cons.IH[OF p] Cons.prems by simp
  ultimately show ?case by simp
qed

lemma prefix_split_par: "prefix p cs \<Longrightarrow> NL \<notin> set p \<Longrightarrow> prefix p (hd (split_par cs))"
proof (induction p arbitrary: cs)
  case Nil show ?case by simp
next
  case (Cons x p)
  then obtain cs' where cs: "cs = x # cs'" and p: "prefix p cs'" by (cases cs) auto
  from Cons.prems have "x \<noteq> NL" by auto
  then have "hd (split_par cs) = x # hd (split_par cs')"
    using cs split_par_ne[of cs'] by (cases "split_par cs'") (auto simp: split_par_keep)
  moreover have "prefix p (hd (split_par cs'))" using Cons.IH[OF p] Cons.prems by simp
  ultimately show ?case by simp
qed

lemma entity_lift:
  assumes "\<And>p. prefix p cs \<Longrightarrow> (\<forall>x\<in>set p. \<not> is_space x) \<Longrightarrow> prefix p (f cs)"
  shows "entity cs \<Longrightarrow> entity (f cs)"
proof -
  have a: "\<forall>x\<in>set ''amp;''. \<not> is_space x" "\<forall>x\<in>set ''lt;''. \<not> is_space x" "\<forall>x\<in>set ''gt;''. \<not> is_space x"
    by (simp_all add: is_space_def)
  assume "entity cs"
  then show ?thesis unfolding entity_def using assms a by blast
qed

lemma no_space_no_NL: "\<forall>x\<in>set p. \<not> is_space x \<Longrightarrow> NL \<notin> set p"
  by (auto simp: is_space_def)

lemma entity_collapse_ws: "entity cs \<Longrightarrow> entity (collapse_ws cs)"
  by (rule entity_lift) (simp_all add: prefix_collapse_ws)

lemma entity_squeeze_nl: "entity cs \<Longrightarrow> entity (squeeze_nl cs)"
  by (rule entity_lift) (simp_all add: prefix_squeeze_nl no_space_no_NL)

lemma entity_split_nl: "entity cs \<Longrightarrow> entity (hd (split_nl cs))"
  by (rule entity_lift[where f = "\<lambda>cs. hd (split_nl cs)"]) (simp_all add: prefix_split_nl no_space_no_NL)

lemma entity_split_par: "entity cs \<Longrightarrow> entity (hd (split_par cs))"
  by (rule entity_lift[where f = "\<lambda>cs. hd (split_par cs)"]) (simp_all add: prefix_split_par no_space_no_NL)

lemma safe_Cons: "safe (c # cs) \<longleftrightarrow>
  c \<noteq> CHR ''<'' \<and> c \<noteq> CHR ''>'' \<and> (c = CHR ''&'' \<longrightarrow> entity cs) \<and> safe cs"
  by simp

lemma safe_Cons_lift:
  "safe (c # cs) \<Longrightarrow> safe t \<Longrightarrow> (entity cs \<Longrightarrow> entity t) \<Longrightarrow> safe (c # t)"
  by (auto split: if_splits)

lemma safe_collapse_ws: "safe s \<Longrightarrow> safe (collapse_ws s)"
proof (induction s rule: collapse_ws.induct)
  case 1 show ?case by simp
next
  case (2 c cs)
  show ?case
  proof (cases "is_space c \<and> starts_space cs")
    case True
    from 2(3) have "safe (dropWhile is_space cs)" using safe_dropWhile[of cs is_space] by simp
    with 2(1) True have "safe (collapse_ws (dropWhile is_space cs))" by blast
    with True show ?thesis by (simp add: collapse_ws_drop)
  next
    case False
    from 2(3) have "safe cs" by simp
    with 2(2) False have "safe (collapse_ws cs)" by blast
    with 2(3) have "safe (c # collapse_ws cs)"
      by (rule safe_Cons_lift[where cs = cs]) (rule entity_collapse_ws)
    with False show ?thesis by (simp add: collapse_ws_keep)
  qed
qed

lemma safe_squeeze_nl: "safe s \<Longrightarrow> safe (squeeze_nl s)"
proof (induction s rule: squeeze_nl.induct)
  case 1 show ?case by simp
next
  case (2 c cs)
  show ?case
  proof (cases "c = NL \<and> two_nl cs")
    case True
    from 2(3) have "safe (dropWhile (\<lambda>x. x = NL) cs)" using safe_dropWhile[of cs] by simp
    with 2(1) True have "safe (squeeze_nl (dropWhile (\<lambda>x. x = NL) cs))" by blast
    with True show ?thesis by (simp add: squeeze_nl_drop)
  next
    case False
    from 2(3) have "safe cs" by simp
    with 2(2) False have "safe (squeeze_nl cs)" by blast
    with 2(3) have "safe (c # squeeze_nl cs)"
      by (rule safe_Cons_lift[where cs = cs]) (rule entity_squeeze_nl)
    with False show ?thesis by (simp add: squeeze_nl_keep)
  qed
qed

lemma safe_split_nl: "safe s \<Longrightarrow> \<forall>l\<in>set (split_nl s). safe l"
proof (induction s)
  case Nil show ?case by simp
next
  case (Cons c cs)
  then have ih: "\<forall>l\<in>set (split_nl cs). safe l" by simp
  show ?case
  proof (cases "c = NL")
    case True with ih show ?thesis by simp
  next
    case False
    obtain l ls where sp: "split_nl cs = l # ls" using split_nl_ne[of cs] by (cases "split_nl cs") auto
    with ih have "safe l" by simp
    with Cons.prems have "safe (c # l)"
      by (rule safe_Cons_lift[where cs = cs]) (use entity_split_nl[of cs] sp in simp)
    with False sp ih show ?thesis by simp
  qed
qed

lemma safe_split_par: "safe s \<Longrightarrow> \<forall>l\<in>set (split_par s). safe l"
proof (induction s rule: split_par.induct)
  case 1 show ?case by simp
next
  case (2 c cs)
  show ?case
  proof (cases "c = NL \<and> starts_nl cs")
    case True
    from 2(3) have "safe (dropWhile (\<lambda>x. x = NL) cs)" using safe_dropWhile[of cs] by simp
    with 2(1) True have "\<forall>l\<in>set (split_par (dropWhile (\<lambda>x. x = NL) cs)). safe l" by blast
    with True show ?thesis by (simp add: split_par_drop)
  next
    case False
    from 2(3) have "safe cs" by simp
    with 2(2) False have ih: "\<forall>l\<in>set (split_par cs). safe l" by blast
    obtain l ls where sp: "split_par cs = l # ls" using split_par_ne[of cs] by (cases "split_par cs") auto
    with ih have "safe l" by simp
    with 2(3) have "safe (c # l)"
      by (rule safe_Cons_lift[where cs = cs]) (use entity_split_par[of cs] sp in simp)
    with False sp ih show ?thesis by (simp add: split_par_keep)
  qed
qed

lemma colon_plain: "plain (CHR '':'')"
  by (simp add: plain_def)

lemma safe_strip_colon: "safe s \<Longrightarrow> safe (strip_colon s)"
proof (cases "s \<noteq> [] \<and> last s = CHR '':''")
  case True
  assume s: "safe s"
  from True have "s = butlast s @ [CHR '':'']" by (metis append_butlast_last_id)
  with s safe_cut[of "butlast s" "CHR '':''" "[]"] colon_plain have "safe (butlast s)" by simp
  with True show ?thesis by (simp add: strip_colon_def)
next
  case False
  assume "safe s"
  with False show ?thesis by (auto simp: strip_colon_def)
qed

lemma safe_join: "\<forall>l\<in>set ls. safe l \<Longrightarrow> safe (join '' '' ls)"
  by (induction "'' ''" ls rule: join.induct) (simp_all add: safe_append)

lemma trim_trim: "trim (trim s) = trim s"
  using trim_ends[of s] by (rule trim_id)

lemma good_blocks_Nil: "good_blocks []"
  unfolding good_blocks_def by (rule exI[of _ "[]"]) simp

lemma good_blocks_snoc:
  assumes "good_blocks out" "safe (block_text b)" "filled b"
  shows "good_blocks (out @ [render b])"
proof -
  from assms(1) obtain blocks where b: "out = map render blocks"
    "\<forall>b\<in>set blocks. safe (block_text b) \<and> filled b"
    unfolding good_blocks_def by blast
  show ?thesis unfolding good_blocks_def
    by (rule exI[of _ "blocks @ [b]"]) (use b assms in auto)
qed

lemma good_blocks_para: "good_blocks out \<Longrightarrow> safe t \<Longrightarrow> trim t \<noteq> [] \<Longrightarrow>
  good_blocks (out @ [''<p>'' @ t @ ''</p>''])"
  using good_blocks_snoc[of out "Para t"] by simp

lemma good_blocks_heading: "good_blocks out \<Longrightarrow> safe t \<Longrightarrow> t \<noteq> [] \<Longrightarrow>
  good_blocks (out @ [h3_open @ t @ ''</h3>''])"
  using good_blocks_snoc[of out "Heading t"] by simp

lemma strip_colon_Nil: "strip_colon l = [] \<Longrightarrow> l = [] \<or> l = '':''"
proof (cases "l \<noteq> [] \<and> last l = CHR '':''")
  case True
  assume "strip_colon l = []"
  with True have "butlast l = []" by (simp add: strip_colon_def)
  with True have "l = [last l]" by (metis append_butlast_last_id append_Nil)
  with True show ?thesis by simp
next
  case False
  assume "strip_colon l = []"
  with False show ?thesis by (auto simp: strip_colon_def)
qed

lemma HEADING_colon: "\<not> HEADING '':''"
  by code_simp

lemma heading_text: "HEADING l \<Longrightarrow> strip_colon l \<noteq> []"
proof
  assume h: "HEADING l" and "strip_colon l = []"
  then have "l = [] \<or> l = '':''" using strip_colon_Nil by blast
  moreover have "\<not> HEADING []" by code_simp
  ultimately show False using h HEADING_colon by auto
qed

lemma flushPara_inv: "loop_inv st \<Longrightarrow> loop_inv (flushPara st)"
proof -
  assume inv: "loop_inv st"
  obtain out para where st: "st = (out, para)" by (cases st)
  with inv have g: "good_blocks out" and p: "\<forall>l\<in>set para. safe l" by (simp_all add: loop_inv_def)
  let ?t = "trim (collapse_ws (join '' '' para))"
  have s: "safe ?t" using p by (intro safe_trim safe_collapse_ws safe_join)
  show ?thesis
  proof (cases "para = []")
    case True with inv st show ?thesis by (simp add: flushPara_def)
  next
    case False
    show ?thesis
    proof (cases "?t = []")
      case True
      with False st g show ?thesis by (simp add: flushPara_def loop_inv_def Let_def)
    next
      case nonempty: False
      have "trim ?t = ?t" by (rule trim_trim)
      with nonempty have "trim ?t \<noteq> []" by simp
      with g s have "good_blocks (out @ [''<p>'' @ ?t @ ''</p>''])" by (rule good_blocks_para)
      with False nonempty st show ?thesis by (simp add: flushPara_def loop_inv_def Let_def)
    qed
  qed
qed

lemma step_inv: "loop_inv st \<Longrightarrow> safe raw \<Longrightarrow> loop_inv (step st raw)"
proof -
  assume inv: "loop_inv st" and raw: "safe raw"
  let ?line = "trim raw"
  have l: "safe ?line" using raw by (rule safe_trim)
  have f: "loop_inv (flushPara st)" using inv by (rule flushPara_inv)
  obtain out para where fl: "flushPara st = (out, para)" by (cases "flushPara st")
  with f have g: "good_blocks out" and p: "\<forall>l\<in>set para. safe l" by (simp_all add: loop_inv_def)
  have h: "loop_inv (out @ [h3_open @ strip_colon ?line @ ''</h3>''], para)" if "HEADING ?line"
    using good_blocks_heading[OF g safe_strip_colon[OF l] heading_text[OF that]] p
    by (simp add: loop_inv_def)
  obtain out0 para0 where st: "st = (out0, para0)" by (cases st)
  with inv l have push: "loop_inv (out0, para0 @ [?line])" by (simp add: loop_inv_def)
  show ?thesis
    unfolding step_def Let_def using f h push fl by (simp add: st)
qed

lemma foldl_step_inv: "loop_inv st \<Longrightarrow> \<forall>l\<in>set ls. safe l \<Longrightarrow> loop_inv (foldl step st ls)"
  by (induction ls arbitrary: st) (simp_all add: step_inv)

lemma good_sectioned_out: "good_blocks (sectioned_out src)"
proof -
  have "loop_inv ([], [])" by (simp add: loop_inv_def good_blocks_Nil)
  moreover have "\<forall>l\<in>set (split_nl (esc src)). safe l" using safe_esc by (rule safe_split_nl)
  ultimately have "loop_inv (flushPara (foldl step ([], []) (split_nl (esc src))))"
    by (intro flushPara_inv foldl_step_inv)
  then show ?thesis by (simp add: sectioned_out_def loop_inv_def)
qed

lemma safe_sentinel: "safe ''Not provided.'' \<and> trim ''Not provided.'' \<noteq> []"
  by code_simp

lemma sectioned_blocks:
  "\<exists>blocks. toSectionedHTML src = join [NL] (map render blocks) \<and>
            (\<forall>b\<in>set blocks. safe (block_text b) \<and> filled b)"
proof (cases "src = []")
  case True
  show ?thesis
    by (rule exI[of _ "[Para ''Not provided.'']"]) (use True safe_sentinel in \<open>simp add: toSectionedHTML_def\<close>)
next
  case False
  from good_sectioned_out[of src] obtain blocks where
    "sectioned_out src = map render blocks" "\<forall>b\<in>set blocks. safe (block_text b) \<and> filled b"
    unfolding good_blocks_def by blast
  with False show ?thesis by (auto simp: toSectionedHTML_def)
qed

lemma verbal_parts_safe: "p \<in> set (verbal_parts src) \<Longrightarrow> safe p \<and> trim p \<noteq> []"
proof -
  assume "p \<in> set (verbal_parts src)"
  then obtain q where q: "q \<in> set (split_par (trim (squeeze_nl (esc src))))" and p: "p = trim q" "p \<noteq> []"
    by (auto simp: verbal_parts_def)
  have "safe (trim (squeeze_nl (esc src)))" by (intro safe_trim safe_squeeze_nl safe_esc)
  with q have "safe q" using safe_split_par by blast
  with p show ?thesis by (simp add: safe_trim trim_trim)
qed

lemma verbal_blocks:
  "\<exists>blocks. toVerbalHTML src = join [NL] (map render blocks) \<and>
            (\<forall>b\<in>set blocks. is_para b \<and> safe (block_text b) \<and> filled b)"
proof (cases "src = []")
  case True
  show ?thesis
    by (rule exI[of _ "[Para ''Not provided.'']"]) (use True safe_sentinel in \<open>simp add: toVerbalHTML_def\<close>)
next
  case False
  have "map (\<lambda>p. ''<p>'' @ p @ ''</p>'') (verbal_parts src) = map render (map Para (verbal_parts src))"
    by simp
  then have "toVerbalHTML src = join [NL] (map render (map Para (verbal_parts src)))"
    using False by (simp only: toVerbalHTML_def if_False)
  moreover have "\<forall>b\<in>set (map Para (verbal_parts src)). is_para b \<and> safe (block_text b) \<and> filled b"
    using verbal_parts_safe[of _ src] by auto
  ultimately show ?thesis by blast
qed

lemma safe_no_tag: "safe t \<Longrightarrow> CHR ''<'' \<notin> set t \<and> CHR ''>'' \<notin> set t"
  by (induction t) auto

lemma esc_spaces: "\<forall>c\<in>set s. is_space c \<Longrightarrow> esc s = s"
proof (induction s)
  case Nil show ?case by (rule esc_Nil)
next
  case (Cons c cs)
  then have "is_space c" by simp
  then have "esc_char c = [c]" by (auto simp: esc_char_def is_space_def)
  with Cons show ?case by (simp add: esc_Cons)
qed

lemma trim_spaces: "\<forall>c\<in>set s. is_space c \<Longrightarrow> trim s = []"
proof -
  assume "\<forall>c\<in>set s. is_space c"
  then have d: "dropWhile is_space s = []" by (induction s) simp_all
  show ?thesis by (simp only: trim_def d rev.simps dropWhile.simps)
qed

lemma split_nl_set: "l \<in> set (split_nl s) \<Longrightarrow> set l \<subseteq> set s"
proof (induction s arbitrary: l)
  case Nil then show ?case by simp
next
  case (Cons c cs)
  obtain k ks where sp: "split_nl cs = k # ks" using split_nl_ne[of cs] by (cases "split_nl cs") auto
  show ?case
  proof (cases "c = NL")
    case True with Cons show ?thesis by auto
  next
    case False
    with Cons.prems sp have "l = c # k \<or> l \<in> set ks" by simp
    then show ?thesis
    proof
      assume "l = c # k"
      moreover have "set k \<subseteq> set cs" using Cons.IH[of k] sp by simp
      ultimately show ?thesis by auto
    next
      assume "l \<in> set ks"
      then have "set l \<subseteq> set cs" using Cons.IH[of l] sp by simp
      then show ?thesis by auto
    qed
  qed
qed

lemma flushPara_empty: "flushPara (out, []) = (out, [])"
  by (simp add: flushPara_def)

lemma step_blank: "trim raw = [] \<Longrightarrow> step (out, []) raw = (out, [])"
  by (simp add: step_def flushPara_empty)

lemma foldl_step_blank: "\<forall>l\<in>set ls. trim l = [] \<Longrightarrow> foldl step (out, []) ls = (out, [])"
  by (induction ls) (simp_all add: step_blank)

lemma sectioned_spaces: "\<forall>c\<in>set s. is_space c \<Longrightarrow> sectioned_out s = []"
proof -
  assume a: "\<forall>c\<in>set s. is_space c"
  have "\<forall>l\<in>set (split_nl s). trim l = []"
  proof
    fix l assume "l \<in> set (split_nl s)"
    then have "set l \<subseteq> set s" by (rule split_nl_set)
    with a have "\<forall>c\<in>set l. is_space c" by blast
    then show "trim l = []" by (rule trim_spaces)
  qed
  then have "foldl step ([], []) (split_nl s) = ([], [])" by (rule foldl_step_blank)
  with a show ?thesis by (simp add: sectioned_out_def esc_spaces flushPara_empty)
qed

lemma verbal_spaces: "\<forall>c\<in>set s. is_space c \<Longrightarrow> verbal_parts s = []"
proof -
  assume a: "\<forall>c\<in>set s. is_space c"
  then have "\<forall>c\<in>set (squeeze_nl s). is_space c" using set_squeeze_nl[of s] by blast
  then have "trim (squeeze_nl s) = []" by (rule trim_spaces)
  with a show ?thesis by (simp add: verbal_parts_def esc_spaces trim_Nil)
qed

section \<open>No closing bracket right before an opening one\<close>

lemma adj_append:
  "adj (a @ b) = adj a \<union> adj b \<union> (if a = [] \<or> b = [] then {} else {(last a, hd b)})"
proof (induction a)
  case Nil
  show ?case by simp
next
  case (Cons x xs)
  show ?case
  proof (cases xs)
    case Nil
    then show ?thesis by (cases b) auto
  next
    case (Cons y ys)
    with Cons.IH show ?thesis by auto
  qed
qed

lemma adj_set: "(x, y) \<in> adj s \<Longrightarrow> x \<in> set s \<and> y \<in> set s"
  by (induction s rule: adj.induct) auto

lemma tight_text: "safe t \<Longrightarrow> tight t"
  unfolding tight_def using adj_set[of "CHR ''>''" "CHR ''<''" t] safe_no_tag[of t] by blast

lemma tight_wrap:
  assumes "tight a" "tight b" "safe t" "t \<noteq> []" "a \<noteq> []" "b \<noteq> []" "hd b = CHR ''<''"
  shows "tight (a @ t @ b)"
proof -
  from assms(4) have "hd t \<in> set t" "last t \<in> set t" by simp_all
  with assms(3) have "hd t \<noteq> CHR ''<''" "last t \<noteq> CHR ''>''"
    using safe_no_tag[of t] by metis+
  with assms tight_text[of t] show ?thesis
    by (auto simp: tight_def adj_append)
qed

lemma tight_tags: "tight ''<p>''" "tight ''</p>''" "tight h3_open" "tight ''</h3>''"
  unfolding tight_def h3_open_def by simp_all

lemma tight_render:
  assumes "safe (block_text b)" "block_text b \<noteq> []"
  shows "tight (render b)"
proof (cases b)
  case (Para t)
  with assms show ?thesis using tight_wrap[of "''<p>''" "''</p>''" t] by (simp add: tight_tags)
next
  case (Heading t)
  have "h3_open \<noteq> []" by (simp add: h3_open_def)
  with Heading assms show ?thesis using tight_wrap[of h3_open "''</h3>''" t] by (simp add: tight_tags)
qed

lemma render_ends: "render b \<noteq> [] \<and> hd (render b) = CHR ''<'' \<and> last (render b) = CHR ''>''"
  by (cases b) (simp_all add: h3_open_def)

lemma join_NL_hd: "xs \<noteq> [] \<Longrightarrow> hd xs \<noteq> [] \<Longrightarrow> join [NL] xs \<noteq> [] \<and> hd (join [NL] xs) = hd (hd xs)"
  by (induction "[NL]" xs rule: join.induct) auto

lemma tight_join:
  "\<forall>b\<in>set blocks. safe (block_text b) \<and> block_text b \<noteq> [] \<Longrightarrow>
   tight (join [NL] (map render blocks))"
proof (induction blocks)
  case Nil show ?case by (simp add: tight_def)
next
  case (Cons b bs)
  then have tb: "tight (render b)" and ih: "tight (join [NL] (map render bs))"
    by (simp_all add: tight_render)
  show ?case
  proof (cases bs)
    case Nil with tb show ?thesis by simp
  next
    case (Cons c cs)
    let ?rest = "join [NL] (map render (c # cs))"
    have r: "?rest \<noteq> []" "hd ?rest = CHR ''<''"
      using join_NL_hd[of "map render (c # cs)"] render_ends[of c] by simp_all
    have e: "render b \<noteq> []" "last (render b) = CHR ''>''" using render_ends[of b] by simp_all
    have "join [NL] (map render (b # bs)) = render b @ [NL] @ ?rest" using Cons by simp
    moreover have "tight (render b @ [NL] @ ?rest)"
      using tb ih r e Cons by (auto simp: tight_def adj_append dest: adj_Cons_cases)
    ultimately show ?thesis by simp
  qed
qed

lemma filled_text: "filled b \<Longrightarrow> block_text b \<noteq> []"
  by (cases b) (auto simp: trim_Nil)

lemma tight_no_empty_para: "tight s \<Longrightarrow> \<not> sublist ''<p></p>'' s"
proof
  assume t: "tight s" and "sublist ''<p></p>'' s"
  moreover have "sublist ''><'' ''<p></p>''" by (simp add: sublist_Cons_right)
  ultimately have "sublist ''><'' s" using sublist_order.order.trans by blast
  with t show False by (simp add: tight_def sublist_pair_adj)
qed

lemma sectioned_no_empty_para: "\<not> sublist ''<p></p>'' (toSectionedHTML src)"
proof -
  from sectioned_blocks[of src] obtain blocks where
    b: "toSectionedHTML src = join [NL] (map render blocks)"
       "\<forall>b\<in>set blocks. safe (block_text b) \<and> filled b" by blast
  then have "\<forall>b\<in>set blocks. safe (block_text b) \<and> block_text b \<noteq> []"
    using filled_text by blast
  then have "tight (join [NL] (map render blocks))" by (rule tight_join)
  with b show ?thesis by (simp add: tight_no_empty_para)
qed

lemma verbal_no_empty_para: "\<not> sublist ''<p></p>'' (toVerbalHTML src)"
proof -
  from verbal_blocks[of src] obtain blocks where
    b: "toVerbalHTML src = join [NL] (map render blocks)"
       "\<forall>b\<in>set blocks. is_para b \<and> safe (block_text b) \<and> filled b" by blast
  then have "\<forall>b\<in>set blocks. safe (block_text b) \<and> block_text b \<noteq> []"
    using filled_text by blast
  then have "tight (join [NL] (map render blocks))" by (rule tight_join)
  with b show ?thesis by (simp add: tight_no_empty_para)
qed

section \<open>Escaping commutes with the formatting\<close>

lemma esc_append: "esc (a @ b) = esc a @ esc b"
  by (induction a) (simp_all add: esc_Nil esc_Cons)

lemma esc_concat: "esc s = concat (map esc_char s)"
  by (induction s) (simp_all add: esc_Nil esc_Cons)

lemma esc_char_ne: "esc_char c \<noteq> []"
  by (simp add: esc_char_def)

lemma esc_eq_Nil: "esc s = [] \<longleftrightarrow> s = []"
  by (cases s) (simp_all add: esc_Nil esc_Cons esc_char_ne)

lemma esc_char_class: "unescaped_class P \<Longrightarrow> P c \<Longrightarrow> esc_char c = [c]"
  by (auto simp: unescaped_class_def esc_char_def)

lemma esc_char_hd: "unescaped_class P \<Longrightarrow> \<not> P c \<Longrightarrow> \<not> P (hd (esc_char c))"
  by (auto simp: unescaped_class_def esc_char_def)

lemma dropWhile_esc: "unescaped_class P \<Longrightarrow> dropWhile P (esc s) = esc (dropWhile P s)"
proof (induction s)
  case Nil show ?case by (simp add: esc_Nil)
next
  case (Cons c cs)
  show ?case
  proof (cases "P c")
    case True
    with Cons show ?thesis by (simp add: esc_Cons esc_char_class)
  next
    case False
    obtain x xs where e: "esc_char c = x # xs" using esc_char_ne[of c] by (cases "esc_char c") auto
    with esc_char_hd[OF Cons.prems False] have "\<not> P x" by simp
    with False e show ?thesis by (simp add: esc_Cons)
  qed
qed

lemma space_class: "unescaped_class is_space"
  by (simp add: unescaped_class_def is_space_def)

lemma esc_char_last: "\<not> is_space c \<Longrightarrow> \<not> is_space (last (esc_char c))"
  by (auto simp: esc_char_def is_space_def)

lemma esc_char_space: "is_space c \<Longrightarrow> esc_char c = [c]"
  by (rule esc_char_class[OF space_class])

lemma esc_snoc: "esc (s @ [c]) = esc s @ esc_char c"
  by (simp add: esc_append esc_Cons esc_Nil)

lemma drop_end_snoc: "rev (dropWhile P (rev (s @ [c]))) = (if P c then rev (dropWhile P (rev s)) else s @ [c])"
  by simp

lemma drop_end_append: "t \<noteq> [] \<Longrightarrow> \<not> P (last t) \<Longrightarrow> rev (dropWhile P (rev (s @ t))) = s @ t"
proof -
  assume "t \<noteq> []" "\<not> P (last t)"
  then obtain y ys where r: "rev t = y # ys" "\<not> P y" by (cases "rev t") (auto simp: last_rev)
  then have "dropWhile P (rev (s @ t)) = rev (s @ t)" by simp
  then show ?thesis by simp
qed

lemma drop_end_esc: "rev (dropWhile is_space (rev (esc s))) = esc (rev (dropWhile is_space (rev s)))"
proof (induction s rule: rev_induct)
  case Nil show ?case by (simp add: esc_Nil)
next
  case (snoc c s)
  show ?case
  proof (cases "is_space c")
    case True
    with snoc show ?thesis by (simp add: esc_snoc esc_char_space)
  next
    case False
    have "rev (dropWhile is_space (rev (esc s @ esc_char c))) = esc s @ esc_char c"
      using esc_char_ne[of c] esc_char_last[OF False] by (rule drop_end_append)
    with False show ?thesis by (simp add: esc_snoc)
  qed
qed

lemma trim_esc: "trim (esc s) = esc (trim s)"
  by (simp add: trim_def dropWhile_esc[OF space_class] drop_end_esc)

lemma join_esc: "join '' '' (map esc ls) = esc (join '' '' ls)"
proof (induction "'' ''" ls rule: join.induct)
  case 1 show ?case by (simp add: esc_Nil)
next
  case (2 x) show ?case by simp
next
  case (3 x y ys)
  have "esc_char SP = [SP]" by (simp add: esc_char_def)
  with 3 show ?case by (simp add: esc_append esc_Cons)
qed

lemma strip_colon_esc: "strip_colon (esc s) = esc (strip_colon s)"
proof (cases s rule: rev_cases)
  case Nil then show ?thesis by (simp add: strip_colon_def esc_Nil)
next
  case (snoc b c)
  show ?thesis
  proof (cases "c = CHR '':''")
    case True
    then have "esc_char c = '':''" by (simp add: esc_char_def)
    with snoc True show ?thesis by (simp add: strip_colon_def esc_snoc)
  next
    case False
    then have "last (esc_char c) \<noteq> CHR '':''" by (auto simp: esc_char_def)
    with snoc False esc_char_ne[of c] show ?thesis by (simp add: strip_colon_def esc_snoc)
  qed
qed

lemma esc_char_no_space: "\<not> is_space c \<Longrightarrow> \<forall>x\<in>set (esc_char c). \<not> is_space x"
  by (auto simp: esc_char_def is_space_def)

lemma esc_char_no_NL: "c \<noteq> NL \<Longrightarrow> NL \<notin> set (esc_char c)"
  by (auto simp: esc_char_def)

lemma esc_char_NL: "esc_char NL = [NL]"
  by (simp add: esc_char_def)

lemma hd_esc_space: "is_space (hd (esc (c # cs))) \<longleftrightarrow> is_space c"
proof (cases "is_space c")
  case True then show ?thesis by (simp add: esc_Cons esc_char_space)
next
  case False
  obtain x xs where e: "esc_char c = x # xs" using esc_char_ne[of c] by (cases "esc_char c") auto
  with esc_char_no_space[OF False] have "\<not> is_space x" by simp
  with False e show ?thesis by (simp add: esc_Cons)
qed

lemma starts_space_esc: "starts_space (esc s) = starts_space s"
proof (cases s)
  case Nil then show ?thesis by (simp add: esc_Nil)
next
  case (Cons c cs)
  obtain x xs where e: "esc (c # cs) = x # xs"
    using esc_eq_Nil[of "c # cs"] by (cases "esc (c # cs)") auto
  with hd_esc_space[of c cs] Cons show ?thesis by (simp add: starts_space_def)
qed

lemma hd_esc_NL: "hd (esc (c # cs)) = NL \<longleftrightarrow> c = NL"
proof (cases "c = NL")
  case True then show ?thesis by (simp add: esc_Cons esc_char_NL)
next
  case False
  obtain x xs where e: "esc_char c = x # xs" using esc_char_ne[of c] by (cases "esc_char c") auto
  with esc_char_no_NL[OF False] have "x \<noteq> NL" by auto
  with False e show ?thesis by (simp add: esc_Cons)
qed

lemma starts_nl_esc: "starts_nl (esc s) = starts_nl s"
proof (cases s)
  case Nil then show ?thesis by (simp add: esc_Nil)
next
  case (Cons c cs)
  obtain x xs where e: "esc (c # cs) = x # xs"
    using esc_eq_Nil[of "c # cs"] by (cases "esc (c # cs)") auto
  with hd_esc_NL[of c cs] Cons show ?thesis by (simp add: starts_nl_def)
qed

lemma two_nl_starts: "two_nl s \<longleftrightarrow> starts_nl s \<and> starts_nl (tl s)"
  by (cases s; cases "tl s") (auto simp: two_nl_def starts_nl_def)

lemma starts_nl_tl_esc: "starts_nl s \<Longrightarrow> tl (esc s) = esc (tl s)"
  by (cases s) (auto simp: starts_nl_def esc_Cons esc_char_NL)

lemma two_nl_esc: "two_nl (esc s) = two_nl s"
  using starts_nl_esc[of s] starts_nl_esc[of "tl s"] starts_nl_tl_esc[of s]
  by (auto simp: two_nl_starts)

lemma collapse_ws_pass: "\<forall>x\<in>set p. \<not> is_space x \<Longrightarrow> collapse_ws (p @ r) = p @ collapse_ws r"
  by (induction p) (simp_all add: collapse_ws_keep)

lemma squeeze_nl_pass: "NL \<notin> set p \<Longrightarrow> squeeze_nl (p @ r) = p @ squeeze_nl r"
  by (induction p) (auto simp: squeeze_nl_keep)

lemma split_nl_Cons: "c \<noteq> NL \<Longrightarrow> split_nl (c # r) = (c # hd (split_nl r)) # tl (split_nl r)"
  using split_nl_ne[of r] by (cases "split_nl r") auto

lemma split_nl_pass: "NL \<notin> set p \<Longrightarrow> split_nl (p @ r) = (p @ hd (split_nl r)) # tl (split_nl r)"
proof (induction p)
  case Nil show ?case using split_nl_ne[of r] by simp
next
  case (Cons x p)
  then have "x \<noteq> NL" "NL \<notin> set p" by auto
  with Cons.IH show ?case by (simp add: split_nl_Cons del: split_nl.simps)
qed

lemma split_par_Cons: "c \<noteq> NL \<Longrightarrow> split_par (c # r) = (c # hd (split_par r)) # tl (split_par r)"
  using split_par_ne[of r] by (cases "split_par r") (auto simp: split_par_keep)

lemma split_par_pass: "NL \<notin> set p \<Longrightarrow> split_par (p @ r) = (p @ hd (split_par r)) # tl (split_par r)"
proof (induction p)
  case Nil show ?case using split_par_ne[of r] by simp
next
  case (Cons x p)
  then have "x \<noteq> NL" "NL \<notin> set p" by auto
  with Cons.IH show ?case by (simp add: split_par_Cons)
qed

lemma collapse_ws_esc: "collapse_ws (esc s) = esc (collapse_ws s)"
proof (induction s rule: collapse_ws.induct)
  case 1 show ?case by (simp add: esc_Nil)
next
  case (2 c cs)
  show ?case
  proof (cases "is_space c \<and> starts_space cs")
    case True
    then have ih: "collapse_ws (esc (dropWhile is_space cs)) = esc (collapse_ws (dropWhile is_space cs))"
      using 2(1) by blast
    have sp: "esc_char SP = [SP]" by (simp add: esc_char_def)
    from True have "collapse_ws (esc (c # cs)) = SP # collapse_ws (dropWhile is_space (esc cs))"
      by (simp add: esc_Cons esc_char_space collapse_ws_drop starts_space_esc)
    also have "\<dots> = SP # esc (collapse_ws (dropWhile is_space cs))"
      by (simp add: dropWhile_esc[OF space_class] ih)
    also have "\<dots> = esc (collapse_ws (c # cs))"
      using True by (simp add: collapse_ws_drop esc_Cons sp)
    finally show ?thesis .
  next
    case False
    then have ih: "collapse_ws (esc cs) = esc (collapse_ws cs)" using 2(2) by blast
    have "collapse_ws (esc (c # cs)) = esc_char c @ collapse_ws (esc cs)"
    proof (cases "is_space c")
      case True
      with False have "\<not> starts_space (esc cs)" by (simp add: starts_space_esc)
      with True show ?thesis by (simp add: esc_Cons esc_char_space collapse_ws_keep)
    next
      case nsp: False
      then show ?thesis by (simp add: esc_Cons collapse_ws_pass esc_char_no_space)
    qed
    with False ih show ?thesis by (simp add: collapse_ws_keep esc_Cons)
  qed
qed

lemma squeeze_nl_esc: "squeeze_nl (esc s) = esc (squeeze_nl s)"
proof (induction s rule: squeeze_nl.induct)
  case 1 show ?case by (simp add: esc_Nil)
next
  case (2 c cs)
  have nlc: "unescaped_class (\<lambda>x. x = NL)" by (simp add: unescaped_class_def)
  show ?case
  proof (cases "c = NL \<and> two_nl cs")
    case True
    then have ih: "squeeze_nl (esc (dropWhile (\<lambda>x. x = NL) cs)) = esc (squeeze_nl (dropWhile (\<lambda>x. x = NL) cs))"
      using 2(1) by blast
    from True have "squeeze_nl (esc (c # cs)) = NL # NL # squeeze_nl (dropWhile (\<lambda>x. x = NL) (esc cs))"
      by (simp add: esc_Cons esc_char_NL squeeze_nl_drop two_nl_esc)
    also have "\<dots> = NL # NL # esc (squeeze_nl (dropWhile (\<lambda>x. x = NL) cs))"
      by (simp add: dropWhile_esc[OF nlc] ih)
    also have "\<dots> = esc (squeeze_nl (c # cs))"
      using True by (simp add: squeeze_nl_drop esc_Cons esc_char_NL)
    finally show ?thesis .
  next
    case False
    then have ih: "squeeze_nl (esc cs) = esc (squeeze_nl cs)" using 2(2) by blast
    have "squeeze_nl (esc (c # cs)) = esc_char c @ squeeze_nl (esc cs)"
    proof (cases "c = NL")
      case True
      with False have "\<not> two_nl (esc cs)" by (simp add: two_nl_esc)
      with True show ?thesis by (simp add: esc_Cons esc_char_NL squeeze_nl_keep)
    next
      case nnl: False
      then show ?thesis by (simp add: esc_Cons squeeze_nl_pass esc_char_no_NL)
    qed
    with False ih show ?thesis by (simp add: squeeze_nl_keep esc_Cons)
  qed
qed

lemma split_nl_esc: "split_nl (esc s) = map esc (split_nl s)"
proof (induction s)
  case Nil show ?case by (simp add: esc_Nil)
next
  case (Cons c cs)
  show ?case
  proof (cases "c = NL")
    case True
    with Cons show ?thesis by (simp add: esc_Cons esc_char_NL esc_Nil)
  next
    case False
    obtain l ls where sp: "split_nl cs = l # ls" using split_nl_ne[of cs] by (cases "split_nl cs") auto
    have "split_nl (esc (c # cs)) = (esc_char c @ hd (split_nl (esc cs))) # tl (split_nl (esc cs))"
      using False by (simp add: esc_Cons split_nl_pass esc_char_no_NL)
    with Cons sp False show ?thesis by (simp add: esc_Cons)
  qed
qed

lemma split_par_esc: "split_par (esc s) = map esc (split_par s)"
proof (induction s rule: split_par.induct)
  case 1 show ?case by (simp add: esc_Nil)
next
  case (2 c cs)
  have nlc: "unescaped_class (\<lambda>x. x = NL)" by (simp add: unescaped_class_def)
  show ?case
  proof (cases "c = NL \<and> starts_nl cs")
    case True
    then have ih: "split_par (esc (dropWhile (\<lambda>x. x = NL) cs)) = map esc (split_par (dropWhile (\<lambda>x. x = NL) cs))"
      using 2(1) by blast
    from True have "split_par (esc (c # cs)) = [] # split_par (dropWhile (\<lambda>x. x = NL) (esc cs))"
      by (simp add: esc_Cons esc_char_NL split_par_drop starts_nl_esc)
    with True ih show ?thesis
      by (simp add: dropWhile_esc[OF nlc] split_par_drop esc_Nil)
  next
    case False
    then have ih: "split_par (esc cs) = map esc (split_par cs)" using 2(2) by blast
    obtain l ls where sp: "split_par cs = l # ls" using split_par_ne[of cs] by (cases "split_par cs") auto
    have "split_par (esc (c # cs)) = (esc_char c @ hd (split_par (esc cs))) # tl (split_par (esc cs))"
    proof (cases "c = NL")
      case True
      with False have "\<not> starts_nl (esc cs)" by (simp add: starts_nl_esc)
      with True show ?thesis
        using split_par_ne[of "esc cs"]
        by (cases "split_par (esc cs)") (simp_all add: esc_Cons esc_char_NL split_par_keep)
    next
      case nnl: False
      then show ?thesis by (simp add: esc_Cons split_par_pass esc_char_no_NL)
    qed
    with False ih sp show ?thesis by (simp add: split_par_keep esc_Cons)
  qed
qed

lemma lower_special: "special c \<Longrightarrow> lower c = c"
proof -
  have "lower (CHR ''&'') = CHR ''&''" "lower (CHR ''<'') = CHR ''<''" "lower (CHR ''>'') = CHR ''>''"
    by code_simp+
  moreover assume "special c"
  ultimately show ?thesis by (auto simp: special_def)
qed

lemma esc_char_special: "special c \<Longrightarrow> \<exists>t. esc_char c = CHR ''&'' # t"
  by (auto simp: special_def esc_char_def)

lemma esc_char_plain: "\<not> special c \<Longrightarrow> esc_char c = [c]"
  by (auto simp: special_def esc_char_def)

lemma lit_esc:
  "\<forall>x\<in>set p. \<not> special (lower x) \<Longrightarrow> lit p (esc s) = map_option esc (lit p s)"
proof (induction p arbitrary: s)
  case Nil show ?case by simp
next
  case (Cons x p)
  then have x: "\<not> special (lower x)" and ih: "\<And>s. lit p (esc s) = map_option esc (lit p s)"
    by simp_all
  show ?case
  proof (cases s)
    case Nil then show ?thesis by (simp add: esc_Nil)
  next
    case (Cons c cs)
    show ?thesis
    proof (cases "special c")
      case True
      then obtain t where t: "esc_char c = CHR ''&'' # t" using esc_char_special by blast
      have amp: "special (CHR ''&'')" by (simp add: special_def)
      from x amp have "lower (CHR ''&'') \<noteq> lower x" using lower_special[OF amp] by auto
      moreover from x True have "lower c \<noteq> lower x" using lower_special[OF True] by auto
      ultimately show ?thesis using Cons t by (simp add: esc_Cons)
    next
      case False
      with Cons ih show ?thesis by (simp add: esc_Cons esc_char_plain)
    qed
  qed
qed

lemma lit_first: "lit (x # p) s = Some r \<Longrightarrow> s \<noteq> [] \<and> lower (hd s) = lower x"
  by (cases s) (auto split: if_splits)

lemma spaces_esc: "spaces (esc s) = esc (spaces s)"
  by (simp add: spaces_def dropWhile_esc[OF space_class])

lemma hyspaces_esc: "hyspaces (esc s) = esc (hyspaces s)"
proof -
  have "unescaped_class (\<lambda>c. c = CHR ''-'' \<or> is_space c)"
    by (simp add: unescaped_class_def is_space_def)
  then show ?thesis by (simp add: hyspaces_def dropWhile_esc)
qed

lemma digits_esc: "digits (esc s) = esc (digits s)"
proof -
  have "unescaped_class is_digit" by (simp add: unescaped_class_def is_digit_def)
  then show ?thesis by (simp add: digits_def dropWhile_esc)
qed

lemma esc_colon: "esc (CHR '':'' # cs) = CHR '':'' # esc cs"
  by (simp add: esc_Cons esc_char_def)

lemma esc_no_colon: "c \<noteq> CHR '':'' \<Longrightarrow> \<exists>y ys. esc (c # cs) = y # ys \<and> y \<noteq> CHR '':''"
proof -
  assume c: "c \<noteq> CHR '':''"
  obtain y t where e: "esc_char c = y # t" using esc_char_ne[of c] by (cases "esc_char c") auto
  with c have "y \<noteq> CHR '':''" by (auto simp: esc_char_def split: if_splits)
  with e show ?thesis by (simp add: esc_Cons)
qed

lemma colon_esc: "colon (esc s) = map_option esc (colon s)"
proof (cases s)
  case Nil then show ?thesis by (simp add: colon_def esc_Nil)
next
  case (Cons c cs)
  show ?thesis
  proof (cases "c = CHR '':''")
    case True
    with Cons show ?thesis by (simp add: colon_def esc_colon)
  next
    case False
    with esc_no_colon[of c cs] obtain y ys where "esc (c # cs) = y # ys" "y \<noteq> CHR '':''"
      by blast
    with Cons False show ?thesis by (simp add: colon_def)
  qed
qed

lemma opt_colon_esc: "opt_colon (esc s) = esc (opt_colon s)"
proof (cases s)
  case Nil then show ?thesis by (simp add: opt_colon_def esc_Nil)
next
  case (Cons c cs)
  show ?thesis
  proof (cases "c = CHR '':''")
    case True
    with Cons show ?thesis by (simp add: opt_colon_def esc_colon)
  next
    case False
    with esc_no_colon[of c cs] obtain y ys where "esc (c # cs) = y # ys" "y \<noteq> CHR '':''"
      by blast
    with Cons False show ?thesis by (simp add: opt_colon_def)
  qed
qed

lemma spaces1_esc: "spaces1 (esc s) = map_option esc (spaces1 s)"
proof (cases s)
  case Nil then show ?thesis by (simp add: spaces1_def esc_Nil)
next
  case (Cons c cs)
  show ?thesis
  proof (cases "is_space c")
    case True
    with Cons show ?thesis by (simp add: spaces1_def esc_Cons esc_char_space spaces_esc)
  next
    case False
    obtain y ys where e: "esc (c # cs) = y # ys"
      using esc_eq_Nil[of "c # cs"] by (cases "esc (c # cs)") auto
    with hd_esc_space[of c cs] False have "\<not> is_space y" by simp
    with Cons False e show ?thesis by (simp add: spaces1_def)
  qed
qed

lemma first_of_esc:
  "\<forall>m\<in>set ms. \<forall>s. m (esc s) = map_option esc (m s) \<Longrightarrow>
   first_of ms (esc s) = map_option esc (first_of ms s)"
  by (induction ms) (auto split: option.splits)

lemma letters:
  "\<forall>x\<in>set ''verbal''. \<not> special (lower x)" "\<forall>x\<in>set ''rfd''. \<not> special (lower x)"
  "\<forall>x\<in>set ''written''. \<not> special (lower x)" "\<forall>x\<in>set ''and''. \<not> special (lower x)"
  "\<forall>x\<in>set ''speech''. \<not> special (lower x)" "\<forall>x\<in>set ''by''. \<not> special (lower x)"
  "\<forall>x\<in>set ''flow''. \<not> special (lower x)" "\<forall>x\<in>set ''analysis''. \<not> special (lower x)"
  "\<forall>x\<in>set ''Aff''. \<not> special (lower x)" "\<forall>x\<in>set ''Neg''. \<not> special (lower x)"
  "\<forall>x\<in>set ''Constructive''. \<not> special (lower x)" "\<forall>x\<in>set ''Rebuttal''. \<not> special (lower x)"
  "\<forall>x\<in>set ''Summary''. \<not> special (lower x)" "\<forall>x\<in>set ''Final''. \<not> special (lower x)"
  "\<forall>x\<in>set ''Focus''. \<not> special (lower x)" "\<forall>x\<in>set ''Crossfire''. \<not> special (lower x)"
  "\<forall>x\<in>set ''Grand''. \<not> special (lower x)"
  by code_simp+

lemmas lit_escs = letters[THEN lit_esc]

lemma VERBAL_ANCHOR_esc: "VERBAL_ANCHOR (esc s) = map_option esc (VERBAL_ANCHOR s)"
  by (simp add: VERBAL_ANCHOR_def lit_escs spaces_esc opt_colon_esc split: option.splits)

lemma written_tail_esc: "written_tail (esc s) = map_option esc (written_tail s)"
  by (simp add: written_tail_def lit_escs spaces_esc hyspaces_esc split: option.splits)

lemma WRITTEN_ANCHOR_esc: "WRITTEN_ANCHOR (esc s) = map_option esc (WRITTEN_ANCHOR s)"
  by (simp add: WRITTEN_ANCHOR_def lit_escs spaces_esc written_tail_esc opt_colon_esc Let_def
           split: option.splits)

lemma verbal_label_esc: "verbal_label (esc s) = verbal_label s"
  by (simp add: verbal_label_def lit_escs spaces_esc colon_esc esc_eq_Nil split: option.splits)

lemma heading_speech_esc: "heading_speech (esc s) = map_option esc (heading_speech s)"
proof -
  have a: "first_of [lit ''Aff'', lit ''Neg''] (esc t) = map_option esc (first_of [lit ''Aff'', lit ''Neg''] t)" for t
    by (rule first_of_esc) (simp add: lit_escs)
  have f: "(case lit ''Final'' (esc t) of None \<Rightarrow> None | Some u \<Rightarrow> lit ''Focus'' (spaces u))
         = map_option esc (case lit ''Final'' t of None \<Rightarrow> None | Some u \<Rightarrow> lit ''Focus'' (spaces u))" for t
    by (simp add: lit_escs spaces_esc split: option.splits)
  have b: "first_of [lit ''Constructive'', lit ''Rebuttal'', lit ''Summary'',
                \<lambda>t. case lit ''Final'' t of None \<Rightarrow> None | Some u \<Rightarrow> lit ''Focus'' (spaces u)] (esc t)
         = map_option esc (first_of [lit ''Constructive'', lit ''Rebuttal'', lit ''Summary'',
                \<lambda>t. case lit ''Final'' t of None \<Rightarrow> None | Some u \<Rightarrow> lit ''Focus'' (spaces u)] t)" for t
    by (rule first_of_esc) (simp add: lit_escs spaces_esc split: option.splits)
  show ?thesis
    unfolding heading_speech_def
    by (simp add: a b spaces1_esc spaces_esc colon_esc del: first_of.simps split: option.splits)
qed

lemma heading_crossfire_esc: "heading_crossfire (esc s) = map_option esc (heading_crossfire s)"
  by (simp add: heading_crossfire_def lit_escs spaces_esc digits_esc colon_esc split: option.splits)

lemma heading_grand_esc: "heading_grand (esc s) = map_option esc (heading_grand s)"
  by (simp add: heading_grand_def lit_escs spaces_esc colon_esc split: option.splits)

lemma HEADING_esc: "HEADING (esc s) = HEADING s"
  by (simp add: HEADING_def heading_speech_esc heading_crossfire_esc heading_grand_esc esc_eq_Nil)

lemma test_Cons: "test M (c # cs) = (M (c # cs) \<noteq> None \<or> test M cs)"
  by (simp add: test_def)

lemma WRITTEN_first: "WRITTEN_ANCHOR s \<noteq> None \<Longrightarrow> s \<noteq> [] \<and> lower (hd s) = CHR ''w''"
proof -
  assume "WRITTEN_ANCHOR s \<noteq> None"
  then obtain r where "lit ''written'' s = Some r"
    by (auto simp: WRITTEN_ANCHOR_def split: option.splits)
  then have "s \<noteq> [] \<and> lower (hd s) = lower (CHR ''w'')" using lit_first[of "CHR ''w''" "''ritten''" s r] by simp
  moreover have "lower (CHR ''w'') = CHR ''w''" by code_simp
  ultimately show ?thesis by simp
qed

lemma test_WRITTEN_skip: "lower x \<noteq> CHR ''w'' \<Longrightarrow> test WRITTEN_ANCHOR (x # r) = test WRITTEN_ANCHOR r"
  using WRITTEN_first[of "x # r"] by (auto simp: test_Cons)

lemma entity_lower:
  "lower (CHR ''&'') \<noteq> CHR ''w''" "lower (CHR ''a'') \<noteq> CHR ''w''" "lower (CHR ''m'') \<noteq> CHR ''w''"
  "lower (CHR ''p'') \<noteq> CHR ''w''" "lower (CHR '';'') \<noteq> CHR ''w''" "lower (CHR ''l'') \<noteq> CHR ''w''"
  "lower (CHR ''t'') \<noteq> CHR ''w''" "lower (CHR ''g'') \<noteq> CHR ''w''"
  "lower (CHR ''<'') \<noteq> CHR ''w''" "lower (CHR ''>'') \<noteq> CHR ''w''"
  by code_simp+

lemma test_WRITTEN_esc: "test WRITTEN_ANCHOR (esc s) = test WRITTEN_ANCHOR s"
proof (induction s)
  case Nil show ?case by (simp add: esc_Nil)
next
  case (Cons c cs)
  show ?case
  proof (cases "special c")
    case True
    then have "test WRITTEN_ANCHOR (esc (c # cs)) = test WRITTEN_ANCHOR (esc cs)"
      by (auto simp: special_def esc_Cons esc_char_def test_WRITTEN_skip entity_lower)
    moreover from True have "test WRITTEN_ANCHOR (c # cs) = test WRITTEN_ANCHOR cs"
      by (auto simp: special_def test_WRITTEN_skip entity_lower)
    ultimately show ?thesis using Cons by simp
  next
    case False
    have "WRITTEN_ANCHOR (c # esc cs) = map_option esc (WRITTEN_ANCHOR (c # cs))"
      using WRITTEN_ANCHOR_esc[of "c # cs"] False by (simp add: esc_Cons esc_char_plain)
    with False Cons show ?thesis by (simp add: esc_Cons esc_char_plain test_Cons)
  qed
qed

lemma render_escaped_simps:
  "render_escaped (Para t) = ''<p>'' @ esc t @ ''</p>''"
  "render_escaped (Heading t) = h3_open @ esc t @ ''</h3>''"
  by (simp_all add: render_escaped_def)

lemma flushPara_emb: "flushPara (emb st) = emb (raw_flush st)"
proof -
  obtain bs para where st: "st = (bs, para)" by (cases st)
  have t: "trim (collapse_ws (join '' '' (map esc para))) = esc (trim (collapse_ws (join '' '' para)))"
    by (simp add: join_esc collapse_ws_esc trim_esc)
  show ?thesis
    unfolding st emb_def flushPara_def raw_flush_def
    by (simp add: t Let_def esc_eq_Nil render_escaped_simps)
qed

lemma emb_push: "emb (bs @ [b], para) = (fst (emb (bs, para)) @ [render_escaped b], snd (emb (bs, para)))"
  by (simp add: emb_def)

lemma step_emb: "step (emb st) (esc raw) = emb (raw_step st raw)"
proof -
  let ?l = "trim raw"
  have l: "trim (esc raw) = esc ?l" by (rule trim_esc)
  obtain bs para where st: "st = (bs, para)" by (cases st)
  obtain bs' para' where f: "raw_flush st = (bs', para')" by (cases "raw_flush st")
  then have fe: "flushPara (emb st) = (map render_escaped bs', map esc para')"
    using flushPara_emb[of st] by (simp add: emb_def)
  have h: "(map render_escaped bs' @ [h3_open @ strip_colon (esc ?l) @ ''</h3>''], map esc para')
          = emb (bs' @ [Heading (strip_colon ?l)], para')"
    by (simp add: emb_def render_escaped_simps strip_colon_esc)
  have push: "(case emb st of (out, p) \<Rightarrow> (out, p @ [esc ?l])) = emb (bs, para @ [?l])"
    by (simp add: st emb_def)
  have tests: "(esc ?l = []) = (?l = [])" "HEADING (esc ?l) = HEADING ?l"
    "verbal_label (esc ?l) = verbal_label ?l"
    "test WRITTEN_ANCHOR (esc ?l) = test WRITTEN_ANCHOR ?l"
    by (simp_all add: esc_eq_Nil HEADING_esc verbal_label_esc test_WRITTEN_esc)
  consider (is_blank_line) "?l = []"
    | (is_heading) "?l \<noteq> []" "HEADING ?l"
    | (is_label) "?l \<noteq> []" "\<not> HEADING ?l" "verbal_label ?l \<or> test WRITTEN_ANCHOR ?l"
    | (is_text) "?l \<noteq> []" "\<not> HEADING ?l" "\<not> verbal_label ?l" "\<not> test WRITTEN_ANCHOR ?l"
    by blast
  then show ?thesis
  proof cases
    case is_blank_line
    then show ?thesis
      by (simp add: step_def raw_step_def Let_def l esc_Nil flushPara_emb)
  next
    case is_heading
    then have "step (emb st) (esc raw)
        = (map render_escaped bs' @ [h3_open @ strip_colon (esc ?l) @ ''</h3>''], map esc para')"
      by (simp add: step_def Let_def l tests fe)
    moreover from is_heading have "raw_step st raw = (bs' @ [Heading (strip_colon ?l)], para')"
      by (simp add: raw_step_def Let_def f)
    ultimately show ?thesis by (simp only: h)
  next
    case is_label
    then show ?thesis
      by (auto simp: step_def raw_step_def Let_def l tests flushPara_emb)
  next
    case is_text
    then have "step (emb st) (esc raw) = (case emb st of (out, p) \<Rightarrow> (out, p @ [esc ?l]))"
      by (simp add: step_def Let_def l tests)
    moreover from is_text have "raw_step st raw = (bs, para @ [?l])"
      by (simp add: raw_step_def Let_def st)
    ultimately show ?thesis by (simp only: push)
  qed
qed

lemma foldl_step_emb: "foldl step (emb st) (map esc ls) = emb (foldl raw_step st ls)"
  by (induction ls arbitrary: st) (simp_all add: step_emb)

lemma sectioned_out_raw: "sectioned_out src = map render_escaped (raw_sectioned src)"
proof -
  have "([], []) = emb ([], [])" by (simp add: emb_def)
  then have "foldl step ([], []) (split_nl (esc src)) = emb (foldl raw_step ([], []) (split_nl src))"
    by (simp only: split_nl_esc foldl_step_emb)
  then have "sectioned_out src = fst (emb (raw_flush (foldl raw_step ([], []) (split_nl src))))"
    by (simp add: sectioned_out_def flushPara_emb)
  then show ?thesis
    by (simp add: raw_sectioned_def emb_def)
qed

lemma filter_map_esc:
  "filter (\<lambda>p. p \<noteq> []) (map esc ls) = map esc (filter (\<lambda>p. p \<noteq> []) ls)"
  by (induction ls) (simp_all add: esc_eq_Nil)

lemma verbal_parts_raw:
  "map (\<lambda>p. ''<p>'' @ p @ ''</p>'') (verbal_parts src) = map render_escaped (raw_verbal src)"
proof -
  have "map trim (map esc ls) = map esc (map trim ls)" for ls
    by (simp add: trim_esc)
  then have "verbal_parts src
      = map esc (filter (\<lambda>p. p \<noteq> []) (map trim (split_par (trim (squeeze_nl src)))))"
    unfolding verbal_parts_def
    by (simp only: squeeze_nl_esc trim_esc split_par_esc filter_map_esc)
  then show ?thesis
    by (simp add: raw_verbal_def render_escaped_simps o_def)
qed

lemma toSectionedHTML_raw:
  "toSectionedHTML src =
     (if src = [] then ''<p>Not provided.</p>''
      else join [NL] (map render_escaped (raw_sectioned src)))"
  by (simp add: toSectionedHTML_def sectioned_out_raw)

lemma toVerbalHTML_raw:
  "toVerbalHTML src =
     (if src = [] then ''<p>Not provided.</p>''
      else join [NL] (map render_escaped (raw_verbal src)))"
  unfolding toVerbalHTML_def verbal_parts_raw by (rule refl)





lemma set_collapse_ws: "set (collapse_ws s) \<subseteq> insert SP (set s)"
proof (induction s rule: collapse_ws.induct)
  case 1 show ?case by simp
next
  case (2 c cs)
  show ?case
  proof (cases "is_space c \<and> starts_space cs")
    case True
    with 2(1) have "set (collapse_ws (dropWhile is_space cs)) \<subseteq> insert SP (set (dropWhile is_space cs))"
      by blast
    with True show ?thesis using set_dropWhileD[of _ is_space cs] by (auto simp: collapse_ws_drop)
  next
    case False
    with 2(2) have "set (collapse_ws cs) \<subseteq> insert SP (set cs)" by blast
    with False show ?thesis by (auto simp: collapse_ws_keep)
  qed
qed

lemma set_join_sp: "\<forall>l\<in>set ls. set l \<subseteq> A \<Longrightarrow> set (join '' '' ls) \<subseteq> insert SP A"
  by (induction "'' ''" ls rule: join.induct) auto

lemma set_strip_colon: "set (strip_colon s) \<subseteq> set s"
  by (auto simp: strip_colon_def dest: in_set_butlastD)

lemma split_par_set: "l \<in> set (split_par s) \<Longrightarrow> set l \<subseteq> set s"
proof (induction s arbitrary: l rule: split_par.induct)
  case 1 then show ?case by simp
next
  case (2 c cs)
  show ?case
  proof (cases "c = NL \<and> starts_nl cs")
    case True
    with 2(3) have "l = [] \<or> l \<in> set (split_par (dropWhile (\<lambda>x. x = NL) cs))"
      by (simp add: split_par_drop)
    then show ?thesis
    proof
      assume "l = []" then show ?thesis by simp
    next
      assume "l \<in> set (split_par (dropWhile (\<lambda>x. x = NL) cs))"
      with 2(1) True have "set l \<subseteq> set (dropWhile (\<lambda>x. x = NL) cs)" by blast
      then show ?thesis using set_dropWhileD[of _ "\<lambda>x. x = NL" cs] by auto
    qed
  next
    case False
    obtain k ks where sp: "split_par cs = k # ks" using split_par_ne[of cs] by (cases "split_par cs") auto
    with False 2(3) have "l = c # k \<or> l \<in> set ks" by (simp add: split_par_keep)
    then show ?thesis
    proof
      assume "l = c # k"
      moreover have "set k \<subseteq> set cs" using 2(2)[of k] False sp by simp
      ultimately show ?thesis by auto
    next
      assume "l \<in> set ks"
      then have "set l \<subseteq> set cs" using 2(2)[of l] False sp by simp
      then show ?thesis by auto
    qed
  qed
qed

lemma raw_flush_inv: "raw_inv A st \<Longrightarrow> raw_inv A (raw_flush st)"
proof -
  assume inv: "raw_inv A st"
  obtain bs para where st: "st = (bs, para)" by (cases st)
  with inv have p: "\<forall>l\<in>set para. set l \<subseteq> A" by (simp add: raw_inv_def)
  have "set (trim (collapse_ws (join '' '' para))) \<subseteq> insert SP A"
    using set_trim[of "collapse_ws (join '' '' para)"] set_collapse_ws[of "join '' '' para"]
      set_join_sp[OF p] by blast
  with inv st show ?thesis by (auto simp: raw_flush_def raw_inv_def Let_def)
qed

lemma raw_step_inv: "raw_inv A st \<Longrightarrow> set raw \<subseteq> A \<Longrightarrow> raw_inv A (raw_step st raw)"
proof -
  assume inv: "raw_inv A st" and raw: "set raw \<subseteq> A"
  then have l: "set (trim raw) \<subseteq> A" using set_trim[of raw] by blast
  then have h: "set (strip_colon (trim raw)) \<subseteq> insert SP A" using set_strip_colon[of "trim raw"] by blast
  have f: "raw_inv A (raw_flush st)" using inv by (rule raw_flush_inv)
  obtain bs para where fl: "raw_flush st = (bs, para)" by (cases "raw_flush st")
  with f h have hd: "raw_inv A (bs @ [Heading (strip_colon (trim raw))], para)"
    by (simp add: raw_inv_def)
  obtain bs0 para0 where st: "st = (bs0, para0)" by (cases st)
  with inv l have push: "raw_inv A (bs0, para0 @ [trim raw])" by (simp add: raw_inv_def)
  show ?thesis
    unfolding raw_step_def Let_def using f hd push fl by (simp add: st)
qed

lemma foldl_raw_step_inv:
  "raw_inv A st \<Longrightarrow> \<forall>l\<in>set ls. set l \<subseteq> A \<Longrightarrow> raw_inv A (foldl raw_step st ls)"
  by (induction ls arbitrary: st) (simp_all add: raw_step_inv)

lemma raw_sectioned_from_input: "\<forall>b\<in>set (raw_sectioned src). set (block_text b) \<subseteq> insert SP (set src)"
proof -
  have "raw_inv (set src) ([], [])" by (simp add: raw_inv_def)
  moreover have "\<forall>l\<in>set (split_nl src). set l \<subseteq> set src" using split_nl_set by blast
  ultimately have "raw_inv (set src) (raw_flush (foldl raw_step ([], []) (split_nl src)))"
    by (intro raw_flush_inv foldl_raw_step_inv)
  then show ?thesis by (simp add: raw_sectioned_def raw_inv_def)
qed

lemma raw_verbal_from_input: "\<forall>b\<in>set (raw_verbal src). set (block_text b) \<subseteq> set src"
proof
  fix b assume "b \<in> set (raw_verbal src)"
  then obtain q where q: "q \<in> set (split_par (trim (squeeze_nl src)))" and b: "b = Para (trim q)"
    by (auto simp: raw_verbal_def)
  from q have "set q \<subseteq> set (trim (squeeze_nl src))" by (rule split_par_set)
  then have "set (trim q) \<subseteq> set src"
    using set_trim[of q] set_trim[of "squeeze_nl src"] set_squeeze_nl[of src] by blast
  with b show "set (block_text b) \<subseteq> set src" by simp
qed

lemma trim_Nil_spaces: "trim v = [] \<Longrightarrow> \<forall>c\<in>set v. is_space c"
proof -
  assume t: "trim v = []"
  let ?d = "dropWhile is_space v"
  from t have "dropWhile is_space (rev ?d) = []" by (simp only: trim_def rev_is_Nil_conv)
  then have all: "\<forall>c\<in>set ?d. is_space c" by (simp add: dropWhile_eq_Nil_conv)
  have "?d = []"
  proof (rule ccontr)
    assume ne: "?d \<noteq> []"
    then have "\<not> is_space (hd ?d)" using hd_dropWhile[of is_space v] by simp
    moreover have "hd ?d \<in> set ?d" using ne by simp
    ultimately show False using all by blast
  qed
  then show ?thesis by (simp add: dropWhile_eq_Nil_conv)
qed

lemma normalize_blank: "trim v = [] \<Longrightarrow> normalize v = []"
proof -
  assume "trim v = []"
  then have a: "\<forall>c\<in>set v. is_space c" by (rule trim_Nil_spaces)
  have "set (rm_cr v) \<subseteq> set v" by (auto simp: rm_cr_def)
  then have "set (squeeze_nl (strip_trail (rm_bold (rm_cr v)))) \<subseteq> set v"
    using set_rm_bold[of "rm_cr v"] set_strip_trail[of "rm_bold (rm_cr v)"]
      set_squeeze_nl[of "strip_trail (rm_bold (rm_cr v))"] by blast
  with a have "\<forall>c\<in>set (squeeze_nl (strip_trail (rm_bold (rm_cr v)))). is_space c" by blast
  then show ?thesis unfolding normalize_def by (rule trim_spaces)
qed

section \<open>The claims\<close>

text \<open>
  Claim C8. The text normalizer is idempotent: for every string \<open>x\<close>,
  \<open>normalize (normalize x) = normalize x\<close>.
\<close>

theorem normalize_idempotent: "normalize (normalize x) = normalize x"
  by (rule normalize_fixed) (rule normal_form_normalize)

text \<open>
  Claim C4, as stated, makes \<open>splitCombinedBlob\<close> equal to \<open>splitCombinedBlob_spec\<close>: the text
  before the first WRITTEN anchor with the VERBAL label stripped, and the text after the
  anchor, or the whole text with the label stripped, or the whole text. The code trims
  every part it returns, so the two differ on \<^verbatim>\<open>Verbal RFD: a Written RFD: b\<close>.
\<close>

theorem splitCombinedBlob_spec_counterexample:
  "splitCombinedBlob ''Verbal RFD: a Written RFD: b'' = \<lparr>verbal = ''a'', written = ''b''\<rparr> \<and>
   splitCombinedBlob_spec ''Verbal RFD: a Written RFD: b'' = \<lparr>verbal = '' a '', written = '' b''\<rparr> \<and>
   splitCombinedBlob ''Verbal RFD: a Written RFD: b'' \<noteq> splitCombinedBlob_spec ''Verbal RFD: a Written RFD: b''"
  by code_simp

text \<open>
  Claim C4, amended. On the normalized text: if the WRITTEN anchor occurs, the text before
  its first occurrence, with the first VERBAL anchor in it removed and then trimmed, is
  \<open>verbal\<close>, and the text after the matched anchor, trimmed, is \<open>written\<close> (also when a
  VERBAL anchor occurs); else if the VERBAL anchor occurs, the whole text with its first
  occurrence removed, trimmed, is \<open>verbal\<close> and \<open>written\<close> is empty; else the whole text is
  \<open>written\<close> and \<open>verbal\<close> is empty. That is the splitter of the specification with both
  results trimmed.
\<close>

theorem splitCombinedBlob_trims_spec:
  "splitCombinedBlob blob =
     \<lparr>verbal = trim (verbal (splitCombinedBlob_spec blob)),
      written = trim (written (splitCombinedBlob_spec blob))\<rparr>"
proof -
  let ?s = "normalize blob"
  have strip: "replace_first VERBAL_ANCHOR [] t = strip_label t" for t
    by (simp add: replace_first_search strip_label_def search_first_occurrence)
  show ?thesis
  proof (cases "search WRITTEN_ANCHOR ?s")
    case (Some i)
    then obtain r where r: "WRITTEN_ANCHOR (drop i ?s) = Some r"
      using search_Some_match by fastforce
    then have "replace_first WRITTEN_ANCHOR [] (drop i ?s) = r"
      using replace_first_match[of WRITTEN_ANCHOR "drop i ?s" r "[]"] by simp
    with Some r show ?thesis
      by (simp add: splitCombinedBlob_def splitCombinedBlob_spec_def Let_def strip
          search_first_occurrence[symmetric])
  next
    case None
    then show ?thesis
      by (cases "search VERBAL_ANCHOR ?s")
         (simp_all add: splitCombinedBlob_def splitCombinedBlob_spec_def Let_def strip
          search_first_occurrence[symmetric] trim_Nil trim_normalize)
  qed
qed

text \<open>
  Claim C2, as stated, has the combined blob left alone as soon as one of the explicit
  values is non-empty. With an explicit written value and no verbal value the code still
  splits the blob and takes \<open>verbal\<close> from it: adding a top-level \<^verbatim>\<open>rfd\<close> to a payload
  that has \<^verbatim>\<open>writtenRfd\<close> changes the result.
\<close>

theorem pickRfds_fallback_gate_counterexample:
  "pickRfds (JObj [(''writtenRfd'', JStr ''W''), (''rfd'', JStr ''Verbal RFD: V'')])
     = Inr \<lparr>verbal = ''V'', written = ''W''\<rparr> \<and>
   pickRfds (JObj [(''writtenRfd'', JStr ''W'')]) = Inr \<lparr>verbal = [], written = ''W''\<rparr> \<and>
   pickRfds (JObj [(''writtenRfd'', JStr ''W''), (''rfd'', JStr ''Verbal RFD: V'')])
     \<noteq> pickRfds (JObj [(''writtenRfd'', JStr ''W'')])"
  by code_simp

text \<open>
  Claim C2, amended. The explicit aliases are read first. The combined blob is split when
  the verbal value is empty or white space only and the blob is non-empty, whatever the
  written value. Part by part: a verbal value that is a non-blank string leaves both values
  as the aliases gave them (1); an empty (falsy) verbal value is taken from the blob, and
  the written value too if it is empty (2); a verbal value of white space only is kept,
  the blob still gives the written value if that is empty (3); without a blob nothing
  changes (4). Parts 5 to 7 give the pair \<open>pickRfds\<close> then returns: independent of the
  blob in case (1), verbal from the blob beside a non-blank written value in case (2),
  empty verbal and written from the blob in case (3).
\<close>

theorem pickRfds_fallback_gate:
  "(verbal0 (j_of json) = JStr v \<and> trim v \<noteq> [] \<longrightarrow>
      fallback (j_of json) = Inr (JStr v, written0 (j_of json))) \<and>
   (\<not> truthy (verbal0 (j_of json)) \<and> combined_of (j_of json) \<noteq> [] \<longrightarrow>
      fallback (j_of json) =
        Inr (JStr (verbal (splitCombinedBlob (combined_of (j_of json)))),
             if truthy (written0 (j_of json)) then written0 (j_of json)
             else JStr (written (splitCombinedBlob (combined_of (j_of json)))))) \<and>
   (verbal0 (j_of json) = JStr v \<and> v \<noteq> [] \<and> trim v = [] \<and> combined_of (j_of json) \<noteq> [] \<longrightarrow>
      fallback (j_of json) =
        Inr (JStr v,
             if truthy (written0 (j_of json)) then written0 (j_of json)
             else JStr (written (splitCombinedBlob (combined_of (j_of json)))))) \<and>
   (combined_of (j_of json) = [] \<and> (\<not> truthy (verbal0 (j_of json)) \<or> verbal0 (j_of json) = JStr v) \<longrightarrow>
      fallback (j_of json) = Inr (verbal0 (j_of json), written0 (j_of json))) \<and>
   (verbal0 (j_of json) = JStr v \<and> trim v \<noteq> [] \<and> written0 (j_of json) = JStr w \<longrightarrow>
      pickRfds json =
        Inr \<lparr>verbal = normalize v,
             written = normalize (if trim w = []
                                  then (case get_prop (j_of json) ''flowNotes'' of
                                          Some (JStr f) \<Rightarrow> f | _ \<Rightarrow> w)
                                  else w)\<rparr>) \<and>
   (\<not> truthy (verbal0 (j_of json)) \<and> combined_of (j_of json) \<noteq> [] \<and>
    written0 (j_of json) = JStr w \<and> trim w \<noteq> [] \<longrightarrow>
      pickRfds json =
        Inr \<lparr>verbal = normalize (verbal (splitCombinedBlob (combined_of (j_of json)))),
             written = normalize w\<rparr>) \<and>
   (verbal0 (j_of json) = JStr v \<and> v \<noteq> [] \<and> trim v = [] \<and> combined_of (j_of json) \<noteq> [] \<and>
    \<not> truthy (written0 (j_of json)) \<and>
    trim (written (splitCombinedBlob (combined_of (j_of json)))) \<noteq> [] \<longrightarrow>
      pickRfds json =
        Inr \<lparr>verbal = [],
             written = normalize (written (splitCombinedBlob (combined_of (j_of json))))\<rparr>)"
proof -
  let ?j = "j_of json"
  let ?split = "splitCombinedBlob (combined_of ?j)"
  have p1: "fallback ?j = Inr (JStr v, written0 ?j)" if "verbal0 ?j = JStr v \<and> trim v \<noteq> []"
    using that by (simp add: fallback_def blank_JStr)
  have p2: "fallback ?j = Inr (JStr (verbal ?split),
             if truthy (written0 ?j) then written0 ?j else JStr (written ?split))"
    if "\<not> truthy (verbal0 ?j) \<and> combined_of ?j \<noteq> []"
    using that by (simp add: fallback_def blank_falsy Let_def)
  have p3: "fallback ?j = Inr (JStr v,
             if truthy (written0 ?j) then written0 ?j else JStr (written ?split))"
    if "verbal0 ?j = JStr v \<and> v \<noteq> [] \<and> trim v = [] \<and> combined_of ?j \<noteq> []"
    using that by (simp add: fallback_def blank_JStr Let_def)
  have p4: "fallback ?j = Inr (verbal0 ?j, written0 ?j)"
    if "combined_of ?j = [] \<and> (\<not> truthy (verbal0 ?j) \<or> verbal0 ?j = JStr v)"
    using that by (auto simp: fallback_def blank_JStr blank_falsy)
  have p5: "pickRfds json =
        Inr \<lparr>verbal = normalize v,
             written = normalize (if trim w = []
                                  then (case get_prop ?j ''flowNotes'' of
                                          Some (JStr f) \<Rightarrow> f | _ \<Rightarrow> w)
                                  else w)\<rparr>"
    if a: "verbal0 ?j = JStr v \<and> trim v \<noteq> [] \<and> written0 ?j = JStr w"
  proof -
    from a p1 have f: "fallback ?j = Inr (JStr v, JStr w)" by simp
    show ?thesis
      by (simp add: pickRfds_def Let_def f flow_notes_def blank_JStr split: option.splits json.splits)
  qed
  have p6: "pickRfds json = Inr \<lparr>verbal = normalize (verbal ?split), written = normalize w\<rparr>"
    if a: "\<not> truthy (verbal0 ?j) \<and> combined_of ?j \<noteq> [] \<and> written0 ?j = JStr w \<and> trim w \<noteq> []"
  proof -
    from a have w: "w \<noteq> []" by (auto simp: trim_def)
    from a w p2 have f: "fallback ?j = Inr (JStr (verbal ?split), JStr w)" by simp
    from a show ?thesis
      by (simp add: pickRfds_def Let_def f flow_notes_def blank_JStr split: option.splits json.splits)
  qed
  have p7: "pickRfds json = Inr \<lparr>verbal = [], written = normalize (written ?split)\<rparr>"
    if a: "verbal0 ?j = JStr v \<and> v \<noteq> [] \<and> trim v = [] \<and> combined_of ?j \<noteq> [] \<and>
           \<not> truthy (written0 ?j) \<and> trim (written ?split) \<noteq> []"
  proof -
    from a p3 have f: "fallback ?j = Inr (JStr v, JStr (written ?split))" by simp
    from a have n: "normalize v = []" by (simp add: normalize_blank)
    from a show ?thesis
      by (simp add: pickRfds_def Let_def f flow_notes_def blank_JStr n split: option.splits json.splits)
  qed
  from p1 p2 p3 p4 p5 p6 p7 show ?thesis by blast
qed

theorem pickRfds_fallback_gate_witness:
  "(verbal0 (j_of (JObj [(''verbalRfd'', JStr ''V''), (''writtenRfd'', JStr ''W''), (''rfd'', JStr ''Verbal RFD: X Written RFD: Y'')])) = JStr ''V'' \<and>
    trim ''V'' \<noteq> [] \<and>
    written0 (j_of (JObj [(''verbalRfd'', JStr ''V''), (''writtenRfd'', JStr ''W''), (''rfd'', JStr ''Verbal RFD: X Written RFD: Y'')])) = JStr ''W'') \<and>
   fallback (j_of (JObj [(''verbalRfd'', JStr ''V''), (''writtenRfd'', JStr ''W''), (''rfd'', JStr ''Verbal RFD: X Written RFD: Y'')]))
     = Inr (JStr ''V'', JStr ''W'') \<and>
   pickRfds (JObj [(''verbalRfd'', JStr ''V''), (''writtenRfd'', JStr ''W''), (''rfd'', JStr ''Verbal RFD: X Written RFD: Y'')])
     = Inr \<lparr>verbal = ''V'', written = ''W''\<rparr> \<and>
   (\<not> truthy (verbal0 (j_of (JObj [(''writtenRfd'', JStr ''W''), (''rfd'', JStr ''Verbal RFD: V'')]))) \<and>
    combined_of (j_of (JObj [(''writtenRfd'', JStr ''W''), (''rfd'', JStr ''Verbal RFD: V'')])) \<noteq> [] \<and>
    written0 (j_of (JObj [(''writtenRfd'', JStr ''W''), (''rfd'', JStr ''Verbal RFD: V'')])) = JStr ''W'' \<and>
    trim ''W'' \<noteq> []) \<and>
   fallback (j_of (JObj [(''writtenRfd'', JStr ''W''), (''rfd'', JStr ''Verbal RFD: V'')]))
     = Inr (JStr ''V'', JStr ''W'') \<and>
   pickRfds (JObj [(''writtenRfd'', JStr ''W''), (''rfd'', JStr ''Verbal RFD: V'')])
     = Inr \<lparr>verbal = ''V'', written = ''W''\<rparr> \<and>
   (verbal0 (j_of (JObj [(''verbalRfd'', JStr '' ''), (''rfd'', JStr ''Verbal RFD: V Written RFD: Y'')])) = JStr '' '' \<and>
    '' '' \<noteq> [] \<and> trim '' '' = [] \<and>
    combined_of (j_of (JObj [(''verbalRfd'', JStr '' ''), (''rfd'', JStr ''Verbal RFD: V Written RFD: Y'')])) \<noteq> [] \<and>
    \<not> truthy (written0 (j_of (JObj [(''verbalRfd'', JStr '' ''), (''rfd'', JStr ''Verbal RFD: V Written RFD: Y'')])))) \<and>
   fallback (j_of (JObj [(''verbalRfd'', JStr '' ''), (''rfd'', JStr ''Verbal RFD: V Written RFD: Y'')]))
     = Inr (JStr '' '', JStr ''Y'') \<and>
   pickRfds (JObj [(''verbalRfd'', JStr '' ''), (''rfd'', JStr ''Verbal RFD: V Written RFD: Y'')])
     = Inr \<lparr>verbal = [], written = ''Y''\<rparr> \<and>
   combined_of (j_of (JObj [(''verbalRfd'', JStr '' '')])) = [] \<and>
   fallback (j_of (JObj [(''verbalRfd'', JStr '' '')])) = Inr (JStr '' '', JStr [])"
proof -
  let ?J1 = "JObj [(''verbalRfd'', JStr ''V''), (''writtenRfd'', JStr ''W''), (''rfd'', JStr ''Verbal RFD: X Written RFD: Y'')]"
  let ?J2 = "JObj [(''writtenRfd'', JStr ''W''), (''rfd'', JStr ''Verbal RFD: V'')]"
  let ?J3 = "JObj [(''verbalRfd'', JStr '' ''), (''rfd'', JStr ''Verbal RFD: V Written RFD: Y'')]"
  let ?J4 = "JObj [(''verbalRfd'', JStr '' '')]"
  have h1: "verbal0 (j_of ?J1) = JStr ''V'' \<and> trim ''V'' \<noteq> [] \<and> written0 (j_of ?J1) = JStr ''W''"
    by code_simp
  have h2: "\<not> truthy (verbal0 (j_of ?J2)) \<and> combined_of (j_of ?J2) \<noteq> [] \<and>
            written0 (j_of ?J2) = JStr ''W'' \<and> trim ''W'' \<noteq> []"
    by code_simp
  have h3: "verbal0 (j_of ?J3) = JStr '' '' \<and> '' '' \<noteq> [] \<and> trim '' '' = [] \<and>
            combined_of (j_of ?J3) \<noteq> [] \<and> \<not> truthy (written0 (j_of ?J3))"
    by code_simp
  have h4: "combined_of (j_of ?J4) = []" "verbal0 (j_of ?J4) = JStr '' ''" "written0 (j_of ?J4) = JStr []"
    by code_simp+
  have n: "normalize ''V'' = ''V''" "normalize ''W'' = ''W''" "trim ''W'' \<noteq> []"
    "normalize ''Y'' = ''Y''" "trim ''Y'' \<noteq> []" by code_simp+
  have c2: "combined_of (j_of ?J2) = ''Verbal RFD: V''" by code_simp
  have s2: "splitCombinedBlob ''Verbal RFD: V'' = \<lparr>verbal = ''V'', written = []\<rparr>" by code_simp
  have c3: "combined_of (j_of ?J3) = ''Verbal RFD: V Written RFD: Y''" by code_simp
  have s3: "splitCombinedBlob ''Verbal RFD: V Written RFD: Y'' = \<lparr>verbal = ''V'', written = ''Y''\<rparr>"
    by code_simp
  have w1: "written0 (j_of ?J1) = JStr ''W''" and w2: "written0 (j_of ?J2) = JStr ''W''"
    using h1 h2 by blast+
  from pickRfds_fallback_gate[of ?J1 "''V''" "''W''"] h1
  have r1: "fallback (j_of ?J1) = Inr (JStr ''V'', JStr ''W'')"
    "pickRfds ?J1 = Inr \<lparr>verbal = ''V'', written = ''W''\<rparr>"
    by (simp_all add: n)
  from pickRfds_fallback_gate[of ?J2 _ "''W''"] h2
  have r2: "fallback (j_of ?J2) = Inr (JStr ''V'', JStr ''W'')"
    "pickRfds ?J2 = Inr \<lparr>verbal = ''V'', written = ''W''\<rparr>"
    by (simp_all add: c2 s2 n)
  from pickRfds_fallback_gate[of ?J3 "'' ''"] h3
  have r3: "fallback (j_of ?J3) = Inr (JStr '' '', JStr ''Y'')"
    "pickRfds ?J3 = Inr \<lparr>verbal = [], written = ''Y''\<rparr>"
    by (simp_all add: c3 s3 n)
  from pickRfds_fallback_gate[of ?J4 "'' ''"] h4
  have r4: "fallback (j_of ?J4) = Inr (JStr '' '', JStr [])"
    by simp
  from h1 h2 h3 h4(1) r1 r2 r3 r4 show ?thesis by blast
qed

text \<open>
  Claim C3 says that no payload makes \<open>pickRfds\<close> throw. A truthy verbal or written value
  that is not a string (a non-zero number, \<^verbatim>\<open>true\<close>, an object, an array) reaches
  \<^verbatim>\<open>verbal.trim()\<close> or \<^verbatim>\<open>written.trim()\<close>, which raises \<^verbatim>\<open>TypeError\<close>, before
  \<^verbatim>\<open>String(...)\<close> could coerce it.
\<close>

theorem pickRfds_TypeError:
  "pickRfds (JObj [(''verbalRfd'', JNum 5)]) = Inl TypeError \<and>
   pickRfds (JObj [(''judgeAnalysis'', JObj [(''writtenRfd'', JObj [(''text'', JStr ''x'')])])]) = Inl TypeError \<and>
   pickRfds (JObj [(''written_rfd'', JArr [JStr ''x''])]) = Inl TypeError \<and>
   pickRfds (JObj [(''verbal_rfd'', JBool True)]) = Inl TypeError"
  by code_simp




text \<open>
  Claim C7, as stated, has the \<^verbatim>\<open>flowNotes\<close> string become the written section verbatim.
  The section \<open>pickRfds\<close> returns is the normalized string.
\<close>

theorem pickRfds_flowNotes_counterexample:
  "pickRfds (JObj [(''flowNotes'', JStr ''**x** '')]) = Inr \<lparr>verbal = [], written = ''x''\<rparr> \<and>
   ''x'' \<noteq> ''**x** ''"
  by code_simp

text \<open>
  Claim C7, amended. When the written value after the alias lookups and the combined-blob
  fallback is empty or blank and the payload has a \<^verbatim>\<open>flowNotes\<close> property that is a
  string, the written section is that string, normalized.
\<close>

theorem pickRfds_flowNotes:
  "fallback (j_of json) = Inr (v, w) \<Longrightarrow> blank w = Inr True \<Longrightarrow>
   get_prop (j_of json) ''flowNotes'' = Some (JStr f) \<Longrightarrow>
   pickRfds json = Inr \<lparr>verbal = normalize (String_or_empty v), written = normalize f\<rparr>"
  by (simp add: pickRfds_def flow_notes_def Let_def)

theorem pickRfds_flowNotes_witness:
  "fallback (j_of (JObj [(''writtenRfd'', JStr '' ''), (''flowNotes'', JStr ''**x** '')])) = Inr (JStr [], JStr '' '') \<and>
   blank (JStr '' '') = Inr True \<and>
   get_prop (j_of (JObj [(''writtenRfd'', JStr '' ''), (''flowNotes'', JStr ''**x** '')])) ''flowNotes'' = Some (JStr ''**x** '') \<and>
   pickRfds (JObj [(''writtenRfd'', JStr '' ''), (''flowNotes'', JStr ''**x** '')]) = Inr \<lparr>verbal = normalize [], written = normalize ''**x** ''\<rparr>"
proof -
  let ?J = "JObj [(''writtenRfd'', JStr '' ''), (''flowNotes'', JStr ''**x** '')]"
  have a: "fallback (j_of ?J) = Inr (JStr [], JStr '' '')" by code_simp
  have b: "blank (JStr '' '') = Inr True" by code_simp
  have c: "get_prop (j_of ?J) ''flowNotes'' = Some (JStr ''**x** '')" by code_simp
  from pickRfds_flowNotes[OF a b c] a b c show ?thesis by simp
qed

text \<open>
  Claim C9. When \<open>pickRfds\<close> returns, both strings of the pair are fixed points of
  \<open>normalize\<close>: no carriage return, no \<^verbatim>\<open>**\<close>, no space or tab right before a newline,
  no three newlines in a row, no white space at either end.
\<close>

theorem pickRfds_normal_form:
  "pickRfds json = Inr p \<Longrightarrow>
     normal_form (verbal p) \<and> normal_form (written p) \<and>
     normalize (verbal p) = verbal p \<and> normalize (written p) = written p"
  by (auto simp: pickRfds_def Let_def normal_form_normalize normalize_fixed
           split: sum.splits prod.splits)

theorem pickRfds_normal_form_witness:
  "pickRfds (JObj [(''verbalRfd'', JStr ''  **Aff** wins  ''), (''flowNotes'', JStr (''a  '' @ [NL, NL, NL, NL] @ ''b''))])
     = Inr \<lparr>verbal = ''Aff wins'', written = ''a'' @ [NL, NL] @ ''b''\<rparr> \<and>
   normal_form ''Aff wins'' \<and> normal_form (''a'' @ [NL, NL] @ ''b'') \<and>
   normalize ''Aff wins'' = ''Aff wins'' \<and> normalize (''a'' @ [NL, NL] @ ''b'') = ''a'' @ [NL, NL] @ ''b''"
proof -
  have e: "pickRfds (JObj [(''verbalRfd'', JStr ''  **Aff** wins  ''), (''flowNotes'', JStr (''a  '' @ [NL, NL, NL, NL] @ ''b''))])
     = Inr \<lparr>verbal = ''Aff wins'', written = ''a'' @ [NL, NL] @ ''b''\<rparr>"
    by code_simp
  from pickRfds_normal_form[OF e] e show ?thesis by simp
qed

text \<open>
  Claim C1. \<open>esc\<close> replaces every character of its input on its own: \<^verbatim>\<open>&\<close>, \<^verbatim>\<open><\<close> and
  \<^verbatim>\<open>>\<close> by \<^verbatim>\<open>&amp;\<close>, \<^verbatim>\<open>&lt;\<close> and \<^verbatim>\<open>&gt;\<close>, any other character by itself.
  The output of either formatter is what the formatting without escaping cuts out of the
  input (blocks whose texts are made of input characters and joining spaces), each text
  escaped in this way and set in the \<^verbatim>\<open><p>\<close> or \<^verbatim>\<open><h3>\<close> element the formatter adds
  (only \<^verbatim>\<open><p>\<close> for the verbal formatter), the elements joined by newlines. So the
  texts between the tags hold no raw \<^verbatim>\<open><\<close> or \<^verbatim>\<open>>\<close>, and every \<^verbatim>\<open>&\<close> in them
  begins an entity that stands for one input character.
\<close>

theorem formatters_escape:
  "esc src = concat (map esc_char src) \<and>
   toSectionedHTML src =
     (if src = [] then ''<p>Not provided.</p>''
      else join [NL] (map render_escaped (raw_sectioned src))) \<and>
   toVerbalHTML src =
     (if src = [] then ''<p>Not provided.</p>''
      else join [NL] (map render_escaped (raw_verbal src))) \<and>
   (\<forall>b\<in>set (raw_sectioned src). set (block_text b) \<subseteq> insert SP (set src)) \<and>
   (\<forall>b\<in>set (raw_verbal src). is_para b \<and> set (block_text b) \<subseteq> set src) \<and>
   (\<exists>blocks. toSectionedHTML src = join [NL] (map render blocks) \<and>
      (\<forall>b\<in>set blocks. safe (block_text b))) \<and>
   (\<exists>blocks. toVerbalHTML src = join [NL] (map render blocks) \<and>
      (\<forall>b\<in>set blocks. is_para b \<and> safe (block_text b)))"
proof -
  have "\<forall>b\<in>set (raw_verbal src). is_para b"
    by (auto simp: raw_verbal_def)
  then have v: "\<forall>b\<in>set (raw_verbal src). is_para b \<and> set (block_text b) \<subseteq> set src"
    using raw_verbal_from_input[of src] by blast
  note s = raw_sectioned_from_input[of src]
  have "\<exists>blocks. toSectionedHTML src = join [NL] (map render blocks) \<and>
      (\<forall>b\<in>set blocks. safe (block_text b))"
    using sectioned_blocks[of src] by blast
  moreover have "\<exists>blocks. toVerbalHTML src = join [NL] (map render blocks) \<and>
      (\<forall>b\<in>set blocks. is_para b \<and> safe (block_text b))"
    using verbal_blocks[of src] by blast
  ultimately show ?thesis
    using esc_concat[of src] toSectionedHTML_raw[of src] toVerbalHTML_raw[of src] v s by blast
qed

theorem formatters_escape_witness:
  "esc ''&lt;b&gt; &amp;'' = ''&amp;lt;b&amp;gt; &amp;amp;'' \<and>
   raw_sectioned ''&lt;b&gt; &amp;'' = [Para ''&lt;b&gt; &amp;''] \<and>
   raw_verbal ''&lt;b&gt; &amp;'' = [Para ''&lt;b&gt; &amp;''] \<and>
   toSectionedHTML ''&lt;b&gt; &amp;'' = ''<p>&amp;lt;b&amp;gt; &amp;amp;</p>'' \<and>
   toVerbalHTML ''&lt;b&gt; &amp;'' = ''<p>&amp;lt;b&amp;gt; &amp;amp;</p>'' \<and>
   toSectionedHTML ''<script>a & b</script>'' = ''<p>&lt;script&gt;a &amp; b&lt;/script&gt;</p>'' \<and>
   toVerbalHTML ''<script>a & b</script>'' = ''<p>&lt;script&gt;a &amp; b&lt;/script&gt;</p>''"
proof -
  have e: "concat (map esc_char ''&lt;b&gt; &amp;'') = ''&amp;lt;b&amp;gt; &amp;amp;''"
    by (simp add: esc_char_def)
  have r: "raw_sectioned ''&lt;b&gt; &amp;'' = [Para ''&lt;b&gt; &amp;'']"
    "raw_verbal ''&lt;b&gt; &amp;'' = [Para ''&lt;b&gt; &amp;'']"
    by code_simp+
  have e2: "concat (map esc_char ''<script>a & b</script>'') = ''&lt;script&gt;a &amp; b&lt;/script&gt;''"
    by (simp add: esc_char_def)
  have r2: "raw_sectioned ''<script>a & b</script>'' = [Para ''<script>a & b</script>'']"
    "raw_verbal ''<script>a & b</script>'' = [Para ''<script>a & b</script>'']"
    by code_simp+
  note t = formatters_escape[of "''&lt;b&gt; &amp;''"]
  note t2 = formatters_escape[of "''<script>a & b</script>''"]
  from t e have a: "esc ''&lt;b&gt; &amp;'' = ''&amp;lt;b&amp;gt; &amp;amp;''" by simp
  from t2 e2 have a2: "esc ''<script>a & b</script>'' = ''&lt;script&gt;a &amp; b&lt;/script&gt;''" by simp
  from t have "toSectionedHTML ''&lt;b&gt; &amp;'' = join [NL] (map render_escaped (raw_sectioned ''&lt;b&gt; &amp;''))"
    "toVerbalHTML ''&lt;b&gt; &amp;'' = join [NL] (map render_escaped (raw_verbal ''&lt;b&gt; &amp;''))"
    by simp_all
  then have b: "toSectionedHTML ''&lt;b&gt; &amp;'' = ''<p>&amp;lt;b&amp;gt; &amp;amp;</p>''"
    "toVerbalHTML ''&lt;b&gt; &amp;'' = ''<p>&amp;lt;b&amp;gt; &amp;amp;</p>''"
    by (simp_all add: r render_escaped_simps a)
  from t2 have "toSectionedHTML ''<script>a & b</script>'' = join [NL] (map render_escaped (raw_sectioned ''<script>a & b</script>''))"
    "toVerbalHTML ''<script>a & b</script>'' = join [NL] (map render_escaped (raw_verbal ''<script>a & b</script>''))"
    by simp_all
  then have b2: "toSectionedHTML ''<script>a & b</script>'' = ''<p>&lt;script&gt;a &amp; b&lt;/script&gt;</p>''"
    "toVerbalHTML ''<script>a & b</script>'' = ''<p>&lt;script&gt;a &amp; b&lt;/script&gt;</p>''"
    by (simp_all add: r2 render_escaped_simps a2)
  from a r b b2 show ?thesis by blast
qed

text \<open>
  Claim C5, as stated, has both formatters return the sentinel for white-space-only
  input too. Their guard is \<^verbatim>\<open>if (!src)\<close>, which only the empty string passes: a single
  space gives the empty output.
\<close>

theorem formatters_blank_input_counterexample:
  "toSectionedHTML '' '' = [] \<and> toVerbalHTML '' '' = [] \<and>
   toSectionedHTML '' '' \<noteq> ''<p>Not provided.</p>'' \<and> toVerbalHTML '' '' \<noteq> ''<p>Not provided.</p>''"
  by code_simp

text \<open>
  Claim C5, amended. For the empty string both formatters return exactly
  \<^verbatim>\<open><p>Not provided.</p>\<close>; for a non-empty input of white space only both return the
  empty string.
\<close>

theorem formatters_empty_input:
  "toSectionedHTML [] = ''<p>Not provided.</p>'' \<and>
   toVerbalHTML [] = ''<p>Not provided.</p>'' \<and>
   (s \<noteq> [] \<and> (\<forall>c\<in>set s. is_space c) \<longrightarrow> toSectionedHTML s = [] \<and> toVerbalHTML s = [])"
  by (simp add: toSectionedHTML_def toVerbalHTML_def sectioned_spaces verbal_spaces)

theorem formatters_empty_input_witness:
  "[SP, NL, TAB] \<noteq> [] \<and> is_space SP \<and> is_space NL \<and> is_space TAB \<and>
   toSectionedHTML [SP, NL, TAB] = [] \<and> toVerbalHTML [SP, NL, TAB] = []"
proof -
  have s: "is_space SP" "is_space NL" "is_space TAB"
    by (simp_all add: is_space_def)
  then have h: "[SP, NL, TAB] \<noteq> [] \<and> (\<forall>c\<in>set [SP, NL, TAB]. is_space c)"
    by simp
  from formatters_empty_input[of "[SP, NL, TAB]", THEN conjunct2, THEN conjunct2, THEN mp, OF h] s
  show ?thesis by blast
qed

text \<open>
  Claim C10. The output of either formatter holds no empty paragraph element: it is a
  sequence of rendered blocks joined by newlines, the text of every \<^verbatim>\<open><p>\<close> block is not
  empty and not white space only, no text holds a \<^verbatim>\<open><\<close> that could close the block
  early, and \<^verbatim>\<open><p></p>\<close> occurs nowhere in the output.
\<close>

theorem formatters_no_empty_paragraph:
  "(\<exists>blocks. toSectionedHTML src = join [NL] (map render blocks) \<and>
      (\<forall>b\<in>set blocks. filled b \<and> CHR ''<'' \<notin> set (block_text b))) \<and>
   (\<exists>blocks. toVerbalHTML src = join [NL] (map render blocks) \<and>
      (\<forall>b\<in>set blocks. is_para b \<and> filled b \<and> CHR ''<'' \<notin> set (block_text b))) \<and>
   \<not> sublist ''<p></p>'' (toSectionedHTML src) \<and>
   \<not> sublist ''<p></p>'' (toVerbalHTML src)"
  using sectioned_blocks[of src] verbal_blocks[of src] safe_no_tag
    sectioned_no_empty_para[of src] verbal_no_empty_para[of src]
  by blast

theorem formatters_no_empty_paragraph_witness:
  "toSectionedHTML (''a'' @ [NL, NL, SP, NL, NL] @ ''b'') = ''<p>a</p>'' @ [NL] @ ''<p>b</p>'' \<and>
   toVerbalHTML (''a'' @ [NL, NL, SP, NL, NL] @ ''b'') = ''<p>a</p>'' @ [NL] @ ''<p>b</p>'' \<and>
   (\<exists>blocks. toSectionedHTML (''a'' @ [NL, NL, SP, NL, NL] @ ''b'') = join [NL] (map render blocks) \<and>
      (\<forall>b\<in>set blocks. filled b \<and> CHR ''<'' \<notin> set (block_text b))) \<and>
   (\<exists>blocks. toVerbalHTML (''a'' @ [NL, NL, SP, NL, NL] @ ''b'') = join [NL] (map render blocks) \<and>
      (\<forall>b\<in>set blocks. is_para b \<and> filled b \<and> CHR ''<'' \<notin> set (block_text b))) \<and>
   \<not> sublist ''<p></p>'' (toSectionedHTML (''a'' @ [NL, NL, SP, NL, NL] @ ''b'')) \<and>
   \<not> sublist ''<p></p>'' (toVerbalHTML (''a'' @ [NL, NL, SP, NL, NL] @ ''b''))"
proof -
  have "toSectionedHTML (''a'' @ [NL, NL, SP, NL, NL] @ ''b'') = ''<p>a</p>'' @ [NL] @ ''<p>b</p>''"
       "toVerbalHTML (''a'' @ [NL, NL, SP, NL, NL] @ ''b'') = ''<p>a</p>'' @ [NL] @ ''<p>b</p>''"
    by code_simp+
  with formatters_no_empty_paragraph[of "''a'' @ [NL, NL, SP, NL, NL] @ ''b''"] show ?thesis by blast
qed

end
